theory Spec2Isabelle
  imports Main "HOL-Library.Sublist"
begin

section \<open>Strings and Python built-ins used by \<open>utils/chunking.py\<close>\<close>

text \<open>
  A Python \<open>str\<close> is modelled as a \<open>string\<close> (a list of 8-bit characters, read as
  the code points 0 to 255).  \<open>is_space\<close> lists the characters of that range for which
  Python's \<open>str.isspace\<close> holds; \<open>str.strip()\<close> removes them at both ends.
\<close>

definition is_space :: "char \<Rightarrow> bool" where
  "is_space c = (of_char c \<in> {9, 10, 11, 12, 13, 28, 29, 30, 31, 32, 133, 160 :: nat})"

definition strip :: "string \<Rightarrow> string" where
  "strip s = rev (dropWhile is_space (rev (dropWhile is_space s)))"

text \<open>\<open>sep.join(xs)\<close>.\<close>

fun join :: "string \<Rightarrow> string list \<Rightarrow> string" where
  "join sep [] = []"
| "join sep [x] = x"
| "join sep (x # y # ys) = x @ sep @ join sep (y # ys)"

text \<open>\<open>str(n)\<close> for an integer: decimal digits, with a minus sign when negative.\<close>

definition digit_char :: "nat \<Rightarrow> char" where
  "digit_char d = char_of (48 + d)"

fun str_nat :: "nat \<Rightarrow> string" where
  "str_nat n = (if n < 10 then [digit_char n] else str_nat (n div 10) @ [digit_char (n mod 10)])"

declare str_nat.simps [simp del]

definition str_int :: "int \<Rightarrow> string" where
  "str_int k = (if k < 0 then CHR ''-'' # str_nat (nat (- k)) else str_nat (nat k))"

text \<open>
  \<open>xs[a:b]\<close> with Python's rules: a negative bound counts from the end, and both bounds
  are clipped to the list.
\<close>

definition slice_bound :: "nat \<Rightarrow> int \<Rightarrow> nat" where
  "slice_bound n k = (if k < 0 then nat (max (int n + k) 0) else min (nat k) n)"

definition py_slice :: "'a list \<Rightarrow> int \<Rightarrow> int \<Rightarrow> 'a list" where
  "py_slice xs a b =
     (let lo = slice_bound (length xs) a; hi = slice_bound (length xs) b
      in take (hi - lo) (drop lo xs))"

section \<open>Data model\<close>

text \<open>
  \<open>utils/parsers.py\<close>: \<open>Sentence(text: str, page: Optional[int])\<close>.  The field
  \<open>text\<close> is named \<open>s_text\<close> here.  It is a \<open>str\<close> as declared, so that
  \<open>s.text or ""\<close> in \<open>chunk_sentences\<close> is \<open>s.text\<close>.
\<close>

record sentence =
  s_text :: string
  page :: "int option"

text \<open>\<open>utils/chunking.py\<close>: \<open>Chunk\<close>.\<close>

record chunk =
  chunk_number :: int
  page_number :: string
  embedded_text :: string
  raw_text :: string

text \<open>
  \<open>ENC = tiktoken.get_encoding("cl100k_base")\<close> is an object of the \<open>tiktoken\<close>
  library, which is not part of the repository.  The model takes it as a parameter: any
  pair of an \<open>encode\<close> from text to token ids and a \<open>decode\<close> back.
\<close>

record tokenizer =
  encode :: "string \<Rightarrow> nat list"
  decode :: "nat list \<Rightarrow> string"

definition tok_len :: "tokenizer \<Rightarrow> string \<Rightarrow> int" where
  "tok_len ENC s = int (length (encode ENC s))"

section \<open>\<open>_page_range\<close>\<close>

definition consecutive :: "int list \<Rightarrow> bool" where
  "consecutive pages = list_all (\<lambda>i. pages ! i + 1 = pages ! (i + 1)) [0 ..< length pages - 1]"

definition page_range :: "int list \<Rightarrow> string" where
  "page_range pages0 =
     (let pages = sort (remdups pages0) in
      if pages = [] then []
      else if length pages = 1 then str_int (pages ! 0)
      else if consecutive pages then str_int (pages ! 0) @ ''-'' @ str_int (last pages)
      else join '','' (map str_int pages))"

section \<open>\<open>_split_text_by_tokens\<close>\<close>

text \<open>
  The \<open>while start < len(toks)\<close> loop.  It is left only through \<open>break\<close> or its
  condition, and \<open>start += step\<close> need not make progress (\<open>step\<close> is not positive when
  \<open>max_tokens\<close> is not), so the loop is a partial function: \<open>None\<close> is no return.
\<close>

partial_function (option) split_loop ::
  "tokenizer \<Rightarrow> nat list \<Rightarrow> int \<Rightarrow> int \<Rightarrow> int \<Rightarrow> string list \<Rightarrow> string list option" where
  "split_loop ENC toks max_tokens step start pieces =
     (if start < int (length toks) then
        (let end_pos = min (start + max_tokens) (int (length toks));
             piece = strip (decode ENC (py_slice toks start end_pos));
             pieces' = (if piece \<noteq> [] then pieces @ [piece] else pieces)
         in if end_pos = int (length toks) then Some pieces'
            else split_loop ENC toks max_tokens step (start + step) pieces')
      else Some pieces)"

declare split_loop.simps [code]

definition split_text_by_tokens :: "tokenizer \<Rightarrow> string \<Rightarrow> int \<Rightarrow> int \<Rightarrow> string list option" where
  "split_text_by_tokens ENC text0 max_tokens overlap_tokens =
     (let toks = encode ENC text0 in
      if int (length toks) \<le> max_tokens then Some [text0]
      else
        (let step0 = max_tokens - max 0 overlap_tokens;
             step = (if step0 \<le> 0 then max_tokens else step0)
         in split_loop ENC toks max_tokens step 0 []))"

section \<open>\<open>chunk_sentences\<close>\<close>

text \<open>The nested function \<open>finalize(current, n)\<close>; \<open>file_name\<close> is its free variable.\<close>

definition finalize :: "string \<Rightarrow> sentence list \<Rightarrow> int \<Rightarrow> chunk" where
  "finalize file_name current n =
     (let raw = strip (join '' '' (map s_text current));
          pages = map the (filter (\<lambda>p. p \<noteq> None) (map page current));
          page_str0 = page_range pages;
          page_str = (if page_str0 = [] then str_int n else page_str0);
          embedded = file_name @ [CHR 0x0A, CHR 0x0A] @ raw
      in \<lparr>chunk_number = n, page_number = page_str, embedded_text = embedded, raw_text = raw\<rparr>)"

text \<open>
  The overlap loop \<open>for ss in reversed(prev_cur)\<close> with its \<open>break\<close>: the first
  argument is what is left of \<open>reversed(prev_cur)\<close>, then \<open>overlap\<close> and
  \<open>overlap_toks\<close>.
\<close>

fun overlap_walk ::
  "tokenizer \<Rightarrow> int \<Rightarrow> sentence list \<Rightarrow> sentence list \<Rightarrow> int \<Rightarrow> sentence list \<times> int" where
  "overlap_walk ENC overlap_tokens [] overlap overlap_toks = (overlap, overlap_toks)"
| "overlap_walk ENC overlap_tokens (ss # rest) overlap overlap_toks =
     (let tt = tok_len ENC (s_text ss) in
      if overlap \<noteq> [] \<and> overlap_toks + tt > overlap_tokens then (overlap, overlap_toks)
      else overlap_walk ENC overlap_tokens rest (overlap @ [ss]) (overlap_toks + tt))"

text \<open>
  The local variables of \<open>chunk_sentences\<close>.  The last two fields are ghost state, written
  and never read by the program: \<open>emitted\<close> records, for each element of \<open>chunks\<close> in
  order, where it came from, how many of its leading sentences were seeded from the
  overlap of the chunk before it, and the sentences it was finalized from; \<open>carried\<close> is
  the number of leading sentences of \<open>cur\<close> that were seeded from an overlap.
\<close>

datatype origin = Accumulated | Split_Piece

record state =
  i :: nat
  cur :: "sentence list"
  cur_toks :: int
  chunk_no :: int
  chunks :: "chunk list"
  carried :: nat
  emitted :: "(origin \<times> nat \<times> sentence list) list"

definition init :: state where
  "init = \<lparr>i = 0, cur = [], cur_toks = 0, chunk_no = 1, chunks = [], carried = 0, emitted = []\<rparr>"

text \<open>\<open>chunks.append(finalize(current, chunk_no))\<close>, with the ghost record of it.\<close>

definition append_chunk :: "string \<Rightarrow> origin \<Rightarrow> nat \<Rightarrow> sentence list \<Rightarrow> state \<Rightarrow> state" where
  "append_chunk file_name kind k current st =
     st\<lparr>chunks := chunks st @ [finalize file_name current (chunk_no st)],
        emitted := emitted st @ [(kind, k, current)]\<rparr>"

text \<open>The \<open>if cur:\<close> flush in front of an oversized sentence.\<close>

definition flush :: "string \<Rightarrow> state \<Rightarrow> state" where
  "flush file_name st =
     (if cur st \<noteq> [] then
        (append_chunk file_name Accumulated (carried st) (cur st) st)
          \<lparr>chunk_no := chunk_no st + 1, cur := [], cur_toks := 0, carried := 0\<rparr>
      else st)"

text \<open>One round of \<open>for part in parts\<close>.\<close>

definition emit_part :: "string \<Rightarrow> int option \<Rightarrow> state \<Rightarrow> string \<Rightarrow> state" where
  "emit_part file_name pg st part =
     (append_chunk file_name Split_Piece 0 [\<lparr>s_text = part, page = pg\<rparr>] st)
       \<lparr>chunk_no := chunk_no st + 1\<rparr>"

text \<open>
  The branch \<open>if cur and (cur_toks + s_tokens > target_tokens)\<close>: finalize, build the
  overlap, apply the guard against an overlap that is the entire chunk, and leave
  \<open>i\<close> as it is.
\<close>

definition overflow :: "tokenizer \<Rightarrow> string \<Rightarrow> int \<Rightarrow> state \<Rightarrow> state" where
  "overflow ENC file_name overlap_tokens st =
     (let prev_cur = cur st;
          prev_len = length prev_cur;
          prev_toks = cur_toks st;
          st1 = append_chunk file_name Accumulated (carried st) prev_cur st;
          (overlap0, overlap_toks0) = overlap_walk ENC overlap_tokens (rev prev_cur) [] 0;
          overlap1 = rev overlap0;
          (overlap, overlap_toks) =
             (if length overlap1 = prev_len \<and> overlap_toks0 = prev_toks then ([], 0)
              else (overlap1, overlap_toks0))
      in st1\<lparr>chunk_no := chunk_no st + 1, cur := overlap, cur_toks := overlap_toks,
             carried := length overlap\<rparr>)"

text \<open>
  The body of \<open>while i < len(sentences)\<close>, for a state with \<open>i\<close> in range.  The result
  is \<open>None\<close> when the call of \<open>_split_text_by_tokens\<close> does not return.
\<close>

definition body ::
  "tokenizer \<Rightarrow> string \<Rightarrow> int \<Rightarrow> int \<Rightarrow> sentence list \<Rightarrow> state \<Rightarrow> state option" where
  "body ENC file_name target_tokens overlap_tokens sentences st =
     (let s = sentences ! i st;
          t = strip (s_text s)
      in if t = [] then Some (st\<lparr>i := i st + 1\<rparr>)
         else
           (let s_tokens = tok_len ENC t in
            if s_tokens > target_tokens then
              (let st1 = flush file_name st in
               case split_text_by_tokens ENC t target_tokens overlap_tokens of
                 None \<Rightarrow> None
               | Some parts \<Rightarrow>
                   Some ((foldl (emit_part file_name (page s)) st1 parts)\<lparr>i := i st + 1\<rparr>))
            else if cur st \<noteq> [] \<and> cur_toks st + s_tokens > target_tokens then
              Some (overflow ENC file_name overlap_tokens st)
            else
              Some (st\<lparr>cur := cur st @ [s], cur_toks := cur_toks st + s_tokens,
                       i := i st + 1\<rparr>)))"

subsection \<open>The loop terminates\<close>

text \<open>The token total the program accounts for a list of sentences in the overlap loop.\<close>

definition toks_sum :: "tokenizer \<Rightarrow> sentence list \<Rightarrow> int" where
  "toks_sum ENC xs = sum_list (map (\<lambda>s. tok_len ENC (s_text s)) xs)"

lemma toks_sum_simps [simp]:
  "toks_sum ENC [] = 0"
  "toks_sum ENC (x # xs) = tok_len ENC (s_text x) + toks_sum ENC xs"
  "toks_sum ENC (xs @ ys) = toks_sum ENC xs + toks_sum ENC ys"
  "toks_sum ENC (rev xs) = toks_sum ENC xs"
  by (simp_all add: toks_sum_def rev_map [symmetric])

lemma overlap_walk_prefix:
  "overlap_walk ENC ov xs acc a = (r, t) \<Longrightarrow>
     \<exists>p. r = acc @ p \<and> prefix p xs \<and> t = a + toks_sum ENC p"
proof (induction xs arbitrary: acc a)
  case Nil
  then show ?case by simp
next
  case (Cons x xs)
  show ?case
  proof (cases "acc \<noteq> [] \<and> a + tok_len ENC (s_text x) > ov")
    case True
    with Cons.prems show ?thesis by (auto simp: Let_def)
  next
    case False
    with Cons.prems have "overlap_walk ENC ov xs (acc @ [x]) (a + tok_len ENC (s_text x)) = (r, t)"
      by (auto simp: Let_def)
    from Cons.IH [OF this] obtain p where
      "r = (acc @ [x]) @ p" "prefix p xs" "t = a + tok_len ENC (s_text x) + toks_sum ENC p"
      by blast
    then have "r = acc @ (x # p) \<and> prefix (x # p) (x # xs) \<and> t = a + toks_sum ENC (x # p)"
      by simp
    then show ?thesis by blast
  qed
qed

lemma overlap_walk_idem:
  "overlap_walk ENC ov xs acc a = (acc @ p, t) \<Longrightarrow> overlap_walk ENC ov p acc a = (acc @ p, t)"
proof (induction xs arbitrary: acc a p)
  case Nil
  then show ?case by simp
next
  case (Cons x xs)
  show ?case
  proof (cases "acc \<noteq> [] \<and> a + tok_len ENC (s_text x) > ov")
    case True
    with Cons.prems show ?thesis by (auto simp: Let_def)
  next
    case False
    with Cons.prems have w: "overlap_walk ENC ov xs (acc @ [x]) (a + tok_len ENC (s_text x)) = (acc @ p, t)"
      by (auto simp: Let_def)
    from overlap_walk_prefix [OF this] obtain q where q: "acc @ p = (acc @ [x]) @ q"
      by blast
    then have p: "p = x # q" by simp
    from w q have "overlap_walk ENC ov xs (acc @ [x]) (a + tok_len ENC (s_text x)) = ((acc @ [x]) @ q, t)"
      by simp
    from Cons.IH [OF this] False p show ?thesis by (auto simp: Let_def)
  qed
qed

text \<open>
  The measure of the \<open>while\<close> loop.  A round either advances \<open>i\<close> or takes the
  overflow branch, and that branch lowers the phase of the accumulator: 2 for any
  accumulator, 1 for one that the overlap loop returns whole with the token total
  \<open>cur_toks\<close> (the guard then empties it), 0 for the empty one.
\<close>

definition phase :: "tokenizer \<Rightarrow> int \<Rightarrow> state \<Rightarrow> nat" where
  "phase ENC ov st =
     (if cur st = [] then 0
      else if length (fst (overlap_walk ENC ov (rev (cur st)) [] 0)) = length (cur st)
              \<and> snd (overlap_walk ENC ov (rev (cur st)) [] 0) = cur_toks st then 1
      else 2)"

lemma phase_le: "phase ENC ov st \<le> 2"
  by (simp add: phase_def)

lemma phase_overflow:
  assumes "cur st \<noteq> []"
  shows "phase ENC ov (overflow ENC fn ov st) < phase ENC ov st"
proof -
  obtain r t where w: "overlap_walk ENC ov (rev (cur st)) [] 0 = (r, t)"
    by (cases "overlap_walk ENC ov (rev (cur st)) [] 0")
  show ?thesis
  proof (cases "length r = length (cur st) \<and> t = cur_toks st")
    case True
    with assms w show ?thesis
      by (simp add: phase_def overflow_def append_chunk_def Let_def)
  next
    case False
    from overlap_walk_idem [of ENC ov "rev (cur st)" "[]" 0 r t] w
    have "overlap_walk ENC ov r [] 0 = (r, t)" by simp
    with False assms w show ?thesis
      by (simp add: phase_def overflow_def append_chunk_def Let_def)
  qed
qed

lemma i_overflow [simp]: "i (overflow ENC fn ov st) = i st"
  by (simp add: overflow_def append_chunk_def Let_def split: prod.splits)

lemma body_decreases:
  assumes "i st < length ss" "body ENC fn T ov ss st = Some st'"
  shows "3 * (length ss - i st') + phase ENC ov st' < 3 * (length ss - i st) + phase ENC ov st"
proof (cases "strip (s_text (ss ! i st)) \<noteq> [] \<and> \<not> tok_len ENC (strip (s_text (ss ! i st))) > T
     \<and> cur st \<noteq> [] \<and> cur_toks st + tok_len ENC (strip (s_text (ss ! i st))) > T")
  case True
  with assms have "st' = overflow ENC fn ov st"
    by (simp add: body_def Let_def)
  with True phase_overflow [of st ENC ov fn] show ?thesis by simp
next
  case False
  with assms have "i st' = i st + 1"
    by (auto simp: body_def Let_def split: if_splits option.splits)
  with assms phase_le [of ENC ov st'] show ?thesis by simp
qed

text \<open>\<open>while i < len(sentences)\<close>.\<close>

function while_loop ::
  "tokenizer \<Rightarrow> string \<Rightarrow> int \<Rightarrow> int \<Rightarrow> sentence list \<Rightarrow> state \<Rightarrow> state option" where
  "while_loop ENC file_name target_tokens overlap_tokens sentences st =
     (if i st < length sentences then
        (case body ENC file_name target_tokens overlap_tokens sentences st of
           None \<Rightarrow> None
         | Some st' \<Rightarrow> while_loop ENC file_name target_tokens overlap_tokens sentences st')
      else Some st)"
  by pat_completeness auto
termination
proof (relation "measure (\<lambda>(ENC, fn, T, ov, ss, st). 3 * (length ss - i st) + phase ENC ov st)")
  show "wf (measure (\<lambda>(ENC, fn, T, ov, ss, st). 3 * (length ss - i st) + phase ENC ov st))"
    by simp
next
  fix ENC file_name target_tokens overlap_tokens sentences st st'
  assume "i st < length sentences"
    and "body ENC file_name target_tokens overlap_tokens sentences st = Some st'"
  then show "((ENC, file_name, target_tokens, overlap_tokens, sentences, st'),
              (ENC, file_name, target_tokens, overlap_tokens, sentences, st))
        \<in> measure (\<lambda>(ENC, fn, T, ov, ss, st). 3 * (length ss - i st) + phase ENC ov st)"
    using body_decreases by simp
qed

declare while_loop.simps [simp del]

text \<open>
  The number of rounds of the \<open>while\<close> loop (a count for the proofs; the program has no
  such variable).
\<close>

function iterations ::
  "tokenizer \<Rightarrow> string \<Rightarrow> int \<Rightarrow> int \<Rightarrow> sentence list \<Rightarrow> state \<Rightarrow> nat option" where
  "iterations ENC file_name target_tokens overlap_tokens sentences st =
     (if i st < length sentences then
        (case body ENC file_name target_tokens overlap_tokens sentences st of
           None \<Rightarrow> None
         | Some st' \<Rightarrow>
             map_option Suc (iterations ENC file_name target_tokens overlap_tokens sentences st'))
      else Some 0)"
  by pat_completeness auto
termination
proof (relation "measure (\<lambda>(ENC, fn, T, ov, ss, st). 3 * (length ss - i st) + phase ENC ov st)")
  show "wf (measure (\<lambda>(ENC, fn, T, ov, ss, st). 3 * (length ss - i st) + phase ENC ov st))"
    by simp
next
  fix ENC file_name target_tokens overlap_tokens sentences st st'
  assume "i st < length sentences"
    and "body ENC file_name target_tokens overlap_tokens sentences st = Some st'"
  then show "((ENC, file_name, target_tokens, overlap_tokens, sentences, st'),
              (ENC, file_name, target_tokens, overlap_tokens, sentences, st))
        \<in> measure (\<lambda>(ENC, fn, T, ov, ss, st). 3 * (length ss - i st) + phase ENC ov st)"
    using body_decreases by simp
qed

declare iterations.simps [simp del]

text \<open>
  The whole function up to its \<open>return\<close>: the loop from the initial state, then
  \<open>if cur: chunks.append(finalize(cur, chunk_no))\<close>.  \<open>None\<close> is no return.
\<close>

definition run ::
  "tokenizer \<Rightarrow> sentence list \<Rightarrow> string \<Rightarrow> int \<Rightarrow> int \<Rightarrow> state option" where
  "run ENC sentences file_name target_tokens overlap_tokens =
     (case while_loop ENC file_name target_tokens overlap_tokens sentences init of
        None \<Rightarrow> None
      | Some st \<Rightarrow>
          Some (if cur st \<noteq> [] then append_chunk file_name Accumulated (carried st) (cur st) st
                else st))"

definition chunk_sentences ::
  "tokenizer \<Rightarrow> sentence list \<Rightarrow> string \<Rightarrow> int \<Rightarrow> int \<Rightarrow> chunk list option" where
  "chunk_sentences ENC sentences file_name target_tokens overlap_tokens =
     map_option chunks (run ENC sentences file_name target_tokens overlap_tokens)"

text \<open>The ghost record of the returned chunks, in the same order.\<close>

definition chunk_origins ::
  "tokenizer \<Rightarrow> sentence list \<Rightarrow> string \<Rightarrow> int \<Rightarrow> int
     \<Rightarrow> (origin \<times> nat \<times> sentence list) list option" where
  "chunk_origins ENC sentences file_name target_tokens overlap_tokens =
     map_option emitted (run ENC sentences file_name target_tokens overlap_tokens)"

section \<open>Two tokenizers for concrete inputs\<close>

text \<open>One token per character.\<close>

definition char_tokenizer :: tokenizer where
  "char_tokenizer = \<lparr>encode = map of_char, decode = map char_of\<rparr>"

text \<open>
  One token per character, except that a space followed by \<open>ab\<close> is the single token
  256, as byte-pair vocabularies hold a word together with the space in front of it.
\<close>

fun merge_encode :: "string \<Rightarrow> nat list" where
  "merge_encode (c # d # e # rest) =
     (if c = CHR '' '' \<and> d = CHR ''a'' \<and> e = CHR ''b'' then 256 # merge_encode rest
      else of_char c # merge_encode (d # e # rest))"
| "merge_encode (c # rest) = of_char c # merge_encode rest"
| "merge_encode [] = []"

definition merge_decode :: "nat list \<Rightarrow> string" where
  "merge_decode toks = concat (map (\<lambda>t. if t = 256 then '' ab'' else [char_of t]) toks)"

definition merge_tokenizer :: tokenizer where
  "merge_tokenizer = \<lparr>encode = merge_encode, decode = merge_decode\<rparr>"

section \<open>Properties\<close>

subsection \<open>Running the loop by hand\<close>

lemma tok_len_nonneg: "0 \<le> tok_len ENC s"
  by (simp add: tok_len_def)

lemma while_loop_done:
  "\<not> i st < length ss \<Longrightarrow> while_loop ENC fn T ov ss st = Some st"
  by (simp add: while_loop.simps)

lemma while_loop_step:
  "i st < length ss \<Longrightarrow> body ENC fn T ov ss st = Some st' \<Longrightarrow>
     while_loop ENC fn T ov ss st = while_loop ENC fn T ov ss st'"
  by (subst while_loop.simps) simp

subsection \<open>Concrete runs\<close>

text \<open>
  C8: \<open>chunk_sentences\<close> applied to an empty sentence sequence returns the empty chunk
  sequence, as a normal result (it returns, whatever the tokenizer and the budgets).
\<close>

theorem chunk_sentences_empty:
  "chunk_sentences ENC [] file_name target_tokens overlap_tokens = Some []"
  by (simp add: chunk_sentences_def run_def while_loop.simps init_def)

text \<open>
  C10: there are inputs with \<open>T > 0\<close> and \<open>0 < O < T\<close> for which \<open>chunk_sentences\<close>
  emits a chunk made only of overlap.  For any tokenizer and any three trimmed, non-blank
  sentences \<open>a\<close>, \<open>b\<close>, \<open>c\<close> where \<open>a\<close> and \<open>b\<close> fit \<open>T\<close> together, \<open>c\<close> fits \<open>T\<close>
  alone but not beside \<open>b\<close>, and \<open>a\<close> with \<open>b\<close> exceeds \<open>O\<close>: the first chunk is
  \<open>a b\<close>, its overlap seed is the proper suffix \<open>b\<close>, \<open>c\<close> does not fit beside the seed,
  and the seed alone is finalized as chunk 2 (its one sentence is carried, nothing is
  new), so the text of \<open>b\<close> stands in chunks 1 and 2; the third chunk is \<open>c\<close>.  The
  instance below has 6, 3 and 8 tokens, \<open>T = 10\<close>, \<open>O = 5\<close>.
\<close>

theorem overlap_only_chunk:
  assumes tr: "strip (s_text a) = s_text a" "strip (s_text b) = s_text b" "strip (s_text c) = s_text c"
    and nb: "s_text a \<noteq> []" "s_text b \<noteq> []" "s_text c \<noteq> []"
    and fit: "tok_len ENC (s_text a) + tok_len ENC (s_text b) \<le> T"
    and big: "tok_len ENC (s_text c) \<le> T"
    and over: "tok_len ENC (s_text b) + tok_len ENC (s_text c) > T"
    and stop: "tok_len ENC (s_text b) + tok_len ENC (s_text a) > ov"
  shows "chunk_sentences ENC [a, b, c] fn T ov =
      Some [finalize fn [a, b] 1, finalize fn [b] 2, finalize fn [c] 3]
    \<and> chunk_origins ENC [a, b, c] fn T ov =
      Some [(Accumulated, 0, [a, b]), (Accumulated, 1, [b]), (Accumulated, 0, [c])]
    \<and> raw_text (finalize fn [b] 2) = s_text b"
proof -
  let ?ta = "tok_len ENC (s_text a)"
  let ?tb = "tok_len ENC (s_text b)"
  let ?tc = "tok_len ENC (s_text c)"
  let ?ss = "[a, b, c]"
  let ?loop = "while_loop ENC fn T ov ?ss"
  let ?body = "body ENC fn T ov ?ss"
  have nn: "0 \<le> ?ta" "0 \<le> ?tb" "0 \<le> ?tc"
    by (rule tok_len_nonneg)+
  define st1 where "st1 = \<lparr>i = 1, cur = [a], cur_toks = ?ta, chunk_no = 1, chunks = [],
    carried = 0, emitted = []\<rparr>"
  define st2 where "st2 = \<lparr>i = 2, cur = [a, b], cur_toks = ?ta + ?tb, chunk_no = 1, chunks = [],
    carried = 0, emitted = []\<rparr>"
  define st3 where "st3 = \<lparr>i = 2, cur = [b], cur_toks = ?tb, chunk_no = 2,
    chunks = [finalize fn [a, b] 1], carried = 1, emitted = [(Accumulated, 0, [a, b])]\<rparr>"
  define st4 where "st4 = \<lparr>i = 2, cur = [], cur_toks = 0, chunk_no = 3,
    chunks = [finalize fn [a, b] 1, finalize fn [b] 2], carried = 0,
    emitted = [(Accumulated, 0, [a, b]), (Accumulated, 1, [b])]\<rparr>"
  define st5 where "st5 = \<lparr>i = 3, cur = [c], cur_toks = ?tc, chunk_no = 3,
    chunks = [finalize fn [a, b] 1, finalize fn [b] 2], carried = 0,
    emitted = [(Accumulated, 0, [a, b]), (Accumulated, 1, [b])]\<rparr>"
  have b1: "?body init = Some st1"
    using tr nb fit nn by (simp add: body_def init_def st1_def Let_def)
  have b2: "?body st1 = Some st2"
    using tr nb fit nn by (simp add: body_def st1_def st2_def Let_def)
  have w2: "overlap_walk ENC ov (rev [a, b]) [] 0 = ([b], ?tb)"
    using stop by (simp add: Let_def)
  have b3: "?body st2 = Some st3"
    using tr nb big over nn w2
    by (simp add: body_def st2_def st3_def Let_def overflow_def append_chunk_def)
  have w3: "overlap_walk ENC ov (rev [b]) [] 0 = ([b], ?tb)"
    by (simp add: Let_def)
  have b4: "?body st3 = Some st4"
    using tr nb big over nn w3
    by (simp add: body_def st3_def st4_def Let_def overflow_def append_chunk_def)
  have b5: "?body st4 = Some st5"
    using tr nb big nn by (simp add: body_def st4_def st5_def Let_def)
  have "?loop init = ?loop st1"
    by (rule while_loop_step [OF _ b1]) (simp add: init_def)
  also have "\<dots> = ?loop st2"
    by (rule while_loop_step [OF _ b2]) (simp add: st1_def)
  also have "\<dots> = ?loop st3"
    by (rule while_loop_step [OF _ b3]) (simp add: st2_def)
  also have "\<dots> = ?loop st4"
    by (rule while_loop_step [OF _ b4]) (simp add: st3_def)
  also have "\<dots> = ?loop st5"
    by (rule while_loop_step [OF _ b5]) (simp add: st4_def)
  also have "\<dots> = Some st5"
    by (rule while_loop_done) (simp add: st5_def)
  finally have "?loop init = Some st5" .
  moreover have "raw_text (finalize fn [b] 2) = s_text b"
    using tr(2) by (simp add: finalize_def Let_def)
  ultimately show ?thesis
    by (simp add: chunk_sentences_def chunk_origins_def run_def append_chunk_def st5_def)
qed

theorem overlap_only_chunk_witness:
  "(0 :: int) < 10 \<and> (0 :: int) < 5 \<and> (5 :: int) < 10
   \<and> chunk_sentences char_tokenizer
     [\<lparr>s_text = ''aaaaaa'', page = None\<rparr>, \<lparr>s_text = ''bbb'', page = None\<rparr>,
      \<lparr>s_text = ''cccccccc'', page = None\<rparr>] ''doc'' 10 5
   = Some
      [\<lparr>chunk_number = 1, page_number = ''1'',
        embedded_text = ''doc'' @ [CHR 0x0A, CHR 0x0A] @ ''aaaaaa bbb'', raw_text = ''aaaaaa bbb''\<rparr>,
       \<lparr>chunk_number = 2, page_number = ''2'',
        embedded_text = ''doc'' @ [CHR 0x0A, CHR 0x0A] @ ''bbb'', raw_text = ''bbb''\<rparr>,
       \<lparr>chunk_number = 3, page_number = ''3'',
        embedded_text = ''doc'' @ [CHR 0x0A, CHR 0x0A] @ ''cccccccc'', raw_text = ''cccccccc''\<rparr>]
   \<and> chunk_origins char_tokenizer
     [\<lparr>s_text = ''aaaaaa'', page = None\<rparr>, \<lparr>s_text = ''bbb'', page = None\<rparr>,
      \<lparr>s_text = ''cccccccc'', page = None\<rparr>] ''doc'' 10 5
   = Some
      [(Accumulated, 0, [\<lparr>s_text = ''aaaaaa'', page = None\<rparr>, \<lparr>s_text = ''bbb'', page = None\<rparr>]),
       (Accumulated, 1, [\<lparr>s_text = ''bbb'', page = None\<rparr>]),
       (Accumulated, 0, [\<lparr>s_text = ''cccccccc'', page = None\<rparr>])]"
proof -
  let ?a = "\<lparr>s_text = ''aaaaaa'', page = None\<rparr>"
  let ?b = "\<lparr>s_text = ''bbb'', page = None\<rparr>"
  let ?c = "\<lparr>s_text = ''cccccccc'', page = None\<rparr>"
  have tr: "strip (s_text ?a) = s_text ?a" "strip (s_text ?b) = s_text ?b"
    "strip (s_text ?c) = s_text ?c"
    by (simp_all add: strip_def is_space_def)
  have nb: "s_text ?a \<noteq> []" "s_text ?b \<noteq> []" "s_text ?c \<noteq> []" by simp_all
  have fit: "tok_len char_tokenizer (s_text ?a) + tok_len char_tokenizer (s_text ?b) \<le> 10"
    and big: "tok_len char_tokenizer (s_text ?c) \<le> 10"
    and over: "tok_len char_tokenizer (s_text ?b) + tok_len char_tokenizer (s_text ?c) > 10"
    and stop: "tok_len char_tokenizer (s_text ?b) + tok_len char_tokenizer (s_text ?a) > 5"
    by (simp_all add: tok_len_def char_tokenizer_def)
  have f1: "finalize ''doc'' [?a, ?b] 1 = \<lparr>chunk_number = 1, page_number = ''1'',
        embedded_text = ''doc'' @ [CHR 0x0A, CHR 0x0A] @ ''aaaaaa bbb'', raw_text = ''aaaaaa bbb''\<rparr>"
    by code_simp
  have f2: "finalize ''doc'' [?b] 2 = \<lparr>chunk_number = 2, page_number = ''2'',
        embedded_text = ''doc'' @ [CHR 0x0A, CHR 0x0A] @ ''bbb'', raw_text = ''bbb''\<rparr>"
    by code_simp
  have f3: "finalize ''doc'' [?c] 3 = \<lparr>chunk_number = 3, page_number = ''3'',
        embedded_text = ''doc'' @ [CHR 0x0A, CHR 0x0A] @ ''cccccccc'', raw_text = ''cccccccc''\<rparr>"
    by code_simp
  from overlap_only_chunk [OF tr nb fit big over stop, of "''doc''"] f1 f2 f3
  show ?thesis by simp
qed

text \<open>The three sentences of the end-to-end scenario are already trimmed.\<close>

lemma strip_lits [simp]: "strip ''A.'' = ''A.''" "strip ''B.'' = ''B.''" "strip ''C.'' = ''C.''"
  by (simp_all add: strip_def is_space_def)

text \<open>
  C9: for the sentences \<open>A.\<close>, \<open>B.\<close>, \<open>C.\<close> with page \<open>None\<close>, a budget that fits the
  three together and the file name \<open>doc\<close>, \<open>chunk_sentences\<close> returns exactly one chunk:
  number 1, page label \<open>1\<close>, raw text \<open>A. B. C.\<close>, embedded text \<open>doc\<close>, two newlines,
  \<open>A. B. C.\<close>; this for every tokenizer and every overlap budget.
\<close>

theorem three_sentences_one_chunk:
  assumes "tok_len ENC ''A.'' + tok_len ENC ''B.'' + tok_len ENC ''C.'' \<le> target_tokens"
  shows "chunk_sentences ENC
     [\<lparr>s_text = ''A.'', page = None\<rparr>, \<lparr>s_text = ''B.'', page = None\<rparr>,
      \<lparr>s_text = ''C.'', page = None\<rparr>] ''doc'' target_tokens overlap_tokens
   = Some
      [\<lparr>chunk_number = 1, page_number = ''1'',
        embedded_text = ''doc'' @ [CHR 0x0A, CHR 0x0A] @ ''A. B. C.'', raw_text = ''A. B. C.''\<rparr>]"
proof -
  let ?a = "\<lparr>s_text = ''A.'', page = None\<rparr>"
  let ?b = "\<lparr>s_text = ''B.'', page = None\<rparr>"
  let ?c = "\<lparr>s_text = ''C.'', page = None\<rparr>"
  let ?ss = "[?a, ?b, ?c]"
  let ?loop = "while_loop ENC ''doc'' target_tokens overlap_tokens ?ss"
  let ?body = "body ENC ''doc'' target_tokens overlap_tokens ?ss"
  have nn: "0 \<le> tok_len ENC ''A.''" "0 \<le> tok_len ENC ''B.''" "0 \<le> tok_len ENC ''C.''"
    by (rule tok_len_nonneg)+
  define st1 where "st1 = init\<lparr>cur := [?a], cur_toks := tok_len ENC ''A.'', i := 1\<rparr>"
  define st2 where "st2 = st1\<lparr>cur := [?a, ?b], cur_toks := tok_len ENC ''A.'' + tok_len ENC ''B.'', i := 2\<rparr>"
  define st3 where "st3 = st2\<lparr>cur := [?a, ?b, ?c],
     cur_toks := tok_len ENC ''A.'' + tok_len ENC ''B.'' + tok_len ENC ''C.'', i := 3\<rparr>"
  have b1: "?body init = Some st1"
    using assms nn by (simp add: body_def init_def st1_def Let_def)
  have b2: "?body st1 = Some st2"
    using assms nn by (simp add: body_def init_def st1_def st2_def Let_def)
  have b3: "?body st2 = Some st3"
    using assms nn by (simp add: body_def init_def st1_def st2_def st3_def Let_def)
  have "?loop init = ?loop st1"
    by (rule while_loop_step [OF _ b1]) (simp add: init_def)
  also have "\<dots> = ?loop st2"
    by (rule while_loop_step [OF _ b2]) (simp add: st1_def)
  also have "\<dots> = ?loop st3"
    by (rule while_loop_step [OF _ b3]) (simp add: st2_def)
  also have "\<dots> = Some st3"
    by (rule while_loop_done) (simp add: st3_def)
  finally have "?loop init = Some st3" .
  moreover have "finalize ''doc'' [?a, ?b, ?c] 1 = \<lparr>chunk_number = 1, page_number = ''1'',
        embedded_text = ''doc'' @ [CHR 0x0A, CHR 0x0A] @ ''A. B. C.'', raw_text = ''A. B. C.''\<rparr>"
    by code_simp
  ultimately show ?thesis
    by (simp add: chunk_sentences_def run_def append_chunk_def st3_def st2_def st1_def init_def)
qed

theorem three_sentences_one_chunk_witness:
  "tok_len char_tokenizer ''A.'' + tok_len char_tokenizer ''B.'' + tok_len char_tokenizer ''C.'' \<le> 6
   \<and> chunk_sentences char_tokenizer
     [\<lparr>s_text = ''A.'', page = None\<rparr>, \<lparr>s_text = ''B.'', page = None\<rparr>,
      \<lparr>s_text = ''C.'', page = None\<rparr>] ''doc'' 6 200
   = Some
      [\<lparr>chunk_number = 1, page_number = ''1'',
        embedded_text = ''doc'' @ [CHR 0x0A, CHR 0x0A] @ ''A. B. C.'', raw_text = ''A. B. C.''\<rparr>]"
proof -
  have h: "tok_len char_tokenizer ''A.'' + tok_len char_tokenizer ''B.'' + tok_len char_tokenizer ''C.'' \<le> 6"
    by (simp add: tok_len_def char_tokenizer_def)
  from h three_sentences_one_chunk [OF h, of 200] show ?thesis by simp
qed

subsection \<open>The page-range formatter\<close>

lemma sorted_hd_Min: "sorted xs \<Longrightarrow> xs \<noteq> [] \<Longrightarrow> hd xs = Min (set xs)"
  by (cases xs) (auto intro!: Min_eqI [symmetric])

lemma sorted_last_Max: "sorted xs \<Longrightarrow> xs \<noteq> [] \<Longrightarrow> last xs = Max (set xs)"
proof (induction xs)
  case Nil
  then show ?case by simp
next
  case (Cons x xs)
  show ?case
  proof (cases "xs = []")
    case True
    then show ?thesis by simp
  next
    case False
    with Cons have "last xs = Max (set xs)" by simp
    moreover from Cons.prems False have "x \<le> Max (set xs)"
      by (metis List.finite_set Max_ge last_in_set calculation order_trans sorted_simps(2))
    ultimately show ?thesis using False by (simp add: max_def)
  qed
qed

lemma consecutive_iff:
  "consecutive ps \<longleftrightarrow> (\<forall>k. Suc k < length ps \<longrightarrow> ps ! Suc k = ps ! k + 1)"
  by (auto simp: consecutive_def list_all_iff)

text \<open>
  C4: the page-range formatter, on the set of the pages it is given (\<open>ps\<close> is that set
  sorted, without duplicates): the empty string for no page; the number as a decimal
  string for one page; \<open>start-end\<close>, with the least and the greatest page, when every
  adjacent pair of \<open>ps\<close> differs by exactly 1; otherwise all of \<open>ps\<close> comma-joined with
  no range compression, as in \<open>1,2,3,7,8,9\<close>.
\<close>

theorem page_range_cases:
  fixes pages :: "int list"
  defines "ps \<equiv> sorted_list_of_set (set pages)"
  shows "(set pages = {} \<longrightarrow> page_range pages = [])
    \<and> (\<forall>p. set pages = {p} \<longrightarrow> page_range pages = str_int p)
    \<and> (2 \<le> card (set pages) \<and> (\<forall>k. Suc k < length ps \<longrightarrow> ps ! Suc k = ps ! k + 1) \<longrightarrow>
         page_range pages = str_int (Min (set pages)) @ ''-'' @ str_int (Max (set pages)))
    \<and> (2 \<le> card (set pages) \<and> \<not> (\<forall>k. Suc k < length ps \<longrightarrow> ps ! Suc k = ps ! k + 1) \<longrightarrow>
         page_range pages = join '','' (map str_int ps))
    \<and> page_range [1, 2, 3, 7, 8, 9] = ''1,2,3,7,8,9''"
proof -
  have eq: "sort (remdups pages) = ps"
    by (simp add: ps_def sorted_list_of_set_sort_remdups)
  have len: "length ps = card (set pages)"
    by (simp add: ps_def)
  have c1: "set pages = {} \<longrightarrow> page_range pages = []"
    by (simp add: page_range_def)
  have c2: "\<forall>p. set pages = {p} \<longrightarrow> page_range pages = str_int p"
  proof (intro allI impI)
    fix p assume "set pages = {p}"
    then have "ps = [p]" by (simp add: ps_def)
    with eq show "page_range pages = str_int p" by (simp add: page_range_def)
  qed
  have many: "page_range pages =
      (if consecutive ps then str_int (hd ps) @ ''-'' @ str_int (last ps)
       else join '','' (map str_int ps))" if "2 \<le> card (set pages)"
  proof -
    from that len have "ps \<noteq> []" "length ps \<noteq> 1" by auto
    then show ?thesis by (simp add: page_range_def eq hd_conv_nth)
  qed
  have c3: "2 \<le> card (set pages) \<and> (\<forall>k. Suc k < length ps \<longrightarrow> ps ! Suc k = ps ! k + 1) \<longrightarrow>
         page_range pages = str_int (Min (set pages)) @ ''-'' @ str_int (Max (set pages))"
  proof (intro impI, elim conjE)
    assume h: "2 \<le> card (set pages)" and adj: "\<forall>k. Suc k < length ps \<longrightarrow> ps ! Suc k = ps ! k + 1"
    from h len have ne: "ps \<noteq> []" by auto
    have "sorted ps" "set ps = set pages" by (simp_all add: ps_def)
    with ne have "hd ps = Min (set pages)" "last ps = Max (set pages)"
      using sorted_hd_Min [of ps] sorted_last_Max [of ps] by simp_all
    with many [OF h] adj show "page_range pages = str_int (Min (set pages)) @ ''-'' @ str_int (Max (set pages))"
      by (simp add: consecutive_iff)
  qed
  have c4: "2 \<le> card (set pages) \<and> \<not> (\<forall>k. Suc k < length ps \<longrightarrow> ps ! Suc k = ps ! k + 1) \<longrightarrow>
         page_range pages = join '','' (map str_int ps)"
    using many by (auto simp: consecutive_iff)
  have c5: "page_range [1, 2, 3, 7, 8, 9] = ''1,2,3,7,8,9''"
    by code_simp
  from c1 c2 c3 c4 c5 show ?thesis by blast
qed

theorem page_range_cases_witness:
  "page_range [] = [] \<and> page_range [5] = ''5'' \<and> page_range [3, 5, 4, 4] = ''3-5''
   \<and> page_range [1, 2, 5] = ''1,2,5''"
proof -
  have s1: "str_int 1 = ''1''" by code_simp
  have s2: "str_int 2 = ''2''" by code_simp
  have s3: "str_int 3 = ''3''" by code_simp
  have s5: "str_int 5 = ''5''" by code_simp
  have l1: "sorted_list_of_set (set [3, 5, 4, 4 :: int]) = [3, 4, 5]"
    by (simp add: sorted_list_of_set_sort_remdups)
  have l2: "sorted_list_of_set (set [1, 2, 5 :: int]) = [1, 2, 5]"
    by (simp add: sorted_list_of_set_sort_remdups)
  have adj1: "\<forall>k. Suc k < length [3, 4, 5 :: int] \<longrightarrow> [3, 4, 5 :: int] ! Suc k = [3, 4, 5] ! k + 1"
    by (auto simp: less_Suc_eq nth_Cons')
  have adj2: "\<not> (\<forall>k. Suc k < length [1, 2, 5 :: int] \<longrightarrow> [1, 2, 5 :: int] ! Suc k = [1, 2, 5] ! k + 1)"
    by (auto intro: exI [of _ 1])
  have c1: "2 \<le> card (set [3, 5, 4, 4 :: int])" by simp
  have c2: "2 \<le> card (set [1, 2, 5 :: int])" by simp
  have m: "Min (set [3, 5, 4, 4 :: int]) = 3" "Max (set [3, 5, 4, 4 :: int]) = 5" by simp_all
  have "page_range [] = []"
    using page_range_cases [of "[]"] by simp
  moreover have "page_range [5] = ''5''"
    using page_range_cases [of "[5]"] s5 by simp
  moreover have "page_range [3, 5, 4, 4] = ''3-5''"
    using page_range_cases [of "[3, 5, 4, 4]"] l1 adj1 c1 m s3 s5 by simp
  moreover have "page_range [1, 2, 5] = ''1,2,5''"
    using page_range_cases [of "[1, 2, 5]"] l2 adj2 c2 s1 s2 s5 by simp
  ultimately show ?thesis by blast
qed

subsection \<open>The loop returns, and invariants carry through it\<close>

lemma split_loop_total:
  "0 < step \<Longrightarrow> \<exists>ps. split_loop ENC toks m step start pieces = Some ps"
proof (induction "nat (int (length toks) - start)" arbitrary: start pieces rule: less_induct)
  case less
  show ?case
  proof (cases "start < int (length toks) \<and> min (start + m) (int (length toks)) \<noteq> int (length toks)")
    case False
    then show ?thesis
      by (subst split_loop.simps) (auto simp: Let_def)
  next
    case True
    define pieces' where "pieces' =
      (if strip (decode ENC (py_slice toks start (min (start + m) (int (length toks))))) \<noteq> []
       then pieces @ [strip (decode ENC (py_slice toks start (min (start + m) (int (length toks)))))]
       else pieces)"
    from True less.prems have "nat (int (length toks) - (start + step)) < nat (int (length toks) - start)"
      by simp
    from less.hyps [OF this less.prems, of pieces'] obtain ps where
      "split_loop ENC toks m step (start + step) pieces' = Some ps" by blast
    with True show ?thesis
      by (subst split_loop.simps) (simp add: Let_def pieces'_def)
  qed
qed

lemma split_text_by_tokens_total:
  "0 < max_tokens \<Longrightarrow> \<exists>ps. split_text_by_tokens ENC t max_tokens overlap_tokens = Some ps"
  by (simp add: split_text_by_tokens_def Let_def split_loop_total)

lemma body_total:
  "0 < T \<Longrightarrow> \<exists>st'. body ENC fn T ov ss st = Some st'"
proof -
  assume "0 < T"
  from split_text_by_tokens_total [OF this]
  obtain ps where "split_text_by_tokens ENC (strip (s_text (ss ! i st))) T ov = Some ps"
    by blast
  then show ?thesis by (simp add: body_def Let_def)
qed

lemma while_loop_total:
  "0 < T \<Longrightarrow> \<exists>st'. while_loop ENC fn T ov ss st = Some st'"
proof (induction ENC fn T ov ss st rule: while_loop.induct)
  case (1 ENC fn T ov ss st)
  show ?case
  proof (cases "i st < length ss")
    case False
    then show ?thesis by (simp add: while_loop.simps)
  next
    case True
    from body_total [OF "1.prems"] obtain st1 where b: "body ENC fn T ov ss st = Some st1"
      by blast
    from "1.IH" [OF True b "1.prems"] True b show ?thesis
      by (subst while_loop.simps) simp
  qed
qed

text \<open>The invariant rule of the loop: what holds at the start and is kept by the body holds at the exit.\<close>

lemma while_loop_invariant:
  assumes "while_loop ENC fn T ov ss st = Some st'"
    and "P st"
    and "\<And>s s'. P s \<Longrightarrow> i s < length ss \<Longrightarrow> body ENC fn T ov ss s = Some s' \<Longrightarrow> P s'"
  shows "P st' \<and> \<not> i st' < length ss"
  using assms
proof (induction ENC fn T ov ss st rule: while_loop.induct)
  case (1 ENC fn T ov ss st)
  show ?case
  proof (cases "i st < length ss")
    case False
    with "1.prems" show ?thesis by (simp add: while_loop.simps)
  next
    case True
    with "1.prems"(1) obtain st1 where b: "body ENC fn T ov ss st = Some st1"
      and w: "while_loop ENC fn T ov ss st1 = Some st'"
      by (subst (asm) while_loop.simps) (auto split: option.splits)
    from "1.prems"(3) [OF "1.prems"(2) True b] have p1: "P st1" .
    show ?thesis
      by (rule "1.IH" [OF True b w p1]) (rule "1.prems"(3))
  qed
qed

subsection \<open>Chunk numbers\<close>

text \<open>
  The invariant of \<open>chunk_no\<close>: it is one more than the number of chunks appended so
  far, and those carry the numbers 1 up to their count.
\<close>

definition numbered :: "state \<Rightarrow> bool" where
  "numbered st \<longleftrightarrow>
     chunk_no st = int (length (chunks st)) + 1 \<and>
     map chunk_number (chunks st) = [1 .. int (length (chunks st))]"

lemma upto_snoc: "[1 .. 1 + int n] = [1 .. int n] @ [1 + int n]"
  by (simp add: upto_rec2)

lemma chunk_number_finalize [simp]: "chunk_number (finalize fn g n) = n"
  by (simp add: finalize_def Let_def)

lemma numbered_init: "numbered init"
  by (simp add: numbered_def init_def)

lemma numbered_flush: "numbered st \<Longrightarrow> numbered (flush fn st)"
  by (simp add: numbered_def flush_def append_chunk_def upto_snoc add.commute)

lemma numbered_emit_part: "numbered st \<Longrightarrow> numbered (emit_part fn pg st part)"
  by (simp add: numbered_def emit_part_def append_chunk_def upto_snoc add.commute)

lemma numbered_parts: "numbered st \<Longrightarrow> numbered (foldl (emit_part fn pg) st parts)"
  by (induction parts arbitrary: st) (simp_all add: numbered_emit_part)

lemma numbered_overflow: "numbered st \<Longrightarrow> numbered (overflow ENC fn ov st)"
  by (simp add: numbered_def overflow_def append_chunk_def Let_def upto_snoc add.commute split: prod.splits)

lemma numbered_i [simp]: "numbered (st\<lparr>i := k\<rparr>) = numbered st"
  by (simp add: numbered_def)

lemma numbered_body:
  "numbered st \<Longrightarrow> body ENC fn T ov ss st = Some st' \<Longrightarrow> numbered st'"
  by (auto simp: body_def Let_def numbered_parts numbered_flush numbered_overflow
      split: if_splits option.splits) (simp_all add: numbered_def)

text \<open>
  C7: the \<open>chunk_number\<close> fields of the list returned by \<open>chunk_sentences\<close> are exactly
  1, 2, ..., N in emission order, N the number of chunks; and a list is returned
  whenever the target budget is positive.
\<close>

theorem chunk_numbers_sequential:
  "(\<forall>cs. chunk_sentences ENC sentences file_name target_tokens overlap_tokens = Some cs \<longrightarrow>
      map chunk_number cs = [1 .. int (length cs)])
   \<and> (0 < target_tokens \<longrightarrow>
      (\<exists>cs. chunk_sentences ENC sentences file_name target_tokens overlap_tokens = Some cs))"
proof (intro conjI allI impI)
  fix cs
  assume "chunk_sentences ENC sentences file_name target_tokens overlap_tokens = Some cs"
  then obtain st where w: "while_loop ENC file_name target_tokens overlap_tokens sentences init = Some st"
    and cs: "cs = chunks (if cur st \<noteq> [] then append_chunk file_name Accumulated (carried st) (cur st) st else st)"
    by (auto simp: chunk_sentences_def run_def split: option.splits)
  from while_loop_invariant [OF w, of numbered] numbered_init numbered_body
  have "numbered st" by blast
  with cs show "map chunk_number cs = [1 .. int (length cs)]"
    by (simp add: numbered_def append_chunk_def upto_snoc add.commute)
next
  assume "0 < target_tokens"
  from while_loop_total [OF this]
  show "\<exists>cs. chunk_sentences ENC sentences file_name target_tokens overlap_tokens = Some cs"
    by (simp add: chunk_sentences_def run_def split: option.splits)
qed

theorem chunk_numbers_sequential_witness:
  "(0 :: int) < 10 \<and>
   (\<exists>cs. chunk_sentences char_tokenizer
       [\<lparr>s_text = ''aaaaaa'', page = None\<rparr>, \<lparr>s_text = ''bbb'', page = None\<rparr>,
        \<lparr>s_text = ''cccccccc'', page = None\<rparr>] ''doc'' 10 5 = Some cs
      \<and> map chunk_number cs = [1 .. int (length cs)])"
proof -
  have h: "(0 :: int) < 10" by simp
  with chunk_numbers_sequential [of char_tokenizer
       "[\<lparr>s_text = ''aaaaaa'', page = None\<rparr>, \<lparr>s_text = ''bbb'', page = None\<rparr>,
        \<lparr>s_text = ''cccccccc'', page = None\<rparr>]" "''doc''" 10 5]
  show ?thesis by blast
qed

subsection \<open>The number of rounds\<close>

lemma iterations_total:
  "0 < T \<Longrightarrow> \<exists>n. iterations ENC fn T ov ss st = Some n"
proof (induction ENC fn T ov ss st rule: iterations.induct)
  case (1 ENC fn T ov ss st)
  show ?case
  proof (cases "i st < length ss")
    case False
    then show ?thesis by (simp add: iterations.simps)
  next
    case True
    from body_total [OF "1.prems"] obtain st1 where b: "body ENC fn T ov ss st = Some st1"
      by blast
    from "1.IH" [OF True b "1.prems"] True b show ?thesis
      by (subst iterations.simps) auto
  qed
qed

lemma iterations_bound:
  "iterations ENC fn T ov ss st = Some n \<Longrightarrow> n \<le> 3 * (length ss - i st) + phase ENC ov st"
proof (induction ENC fn T ov ss st arbitrary: n rule: iterations.induct)
  case (1 ENC fn T ov ss st)
  show ?case
  proof (cases "i st < length ss")
    case False
    with "1.prems" show ?thesis by (simp add: iterations.simps)
  next
    case True
    with "1.prems" obtain st1 m where b: "body ENC fn T ov ss st = Some st1"
      and it: "iterations ENC fn T ov ss st1 = Some m" and n: "n = Suc m"
      by (subst (asm) iterations.simps) (auto split: option.splits)
    from "1.IH" [OF True b it] have "m \<le> 3 * (length ss - i st1) + phase ENC ov st1" .
    with body_decreases [OF True b] n show ?thesis by simp
  qed
qed

lemma phase_init [simp]: "phase ENC ov init = 0"
  by (simp add: phase_def init_def)

lemma overflow_guard:
  assumes "length (fst (overlap_walk ENC ov (rev (cur st)) [] 0)) = length (cur st)"
    and "snd (overlap_walk ENC ov (rev (cur st)) [] 0) = cur_toks st"
  shows "cur (overflow ENC fn ov st) = [] \<and> cur_toks (overflow ENC fn ov st) = 0"
proof -
  obtain r t where w: "overlap_walk ENC ov (rev (cur st)) [] 0 = (r, t)"
    by (cases "overlap_walk ENC ov (rev (cur st)) [] 0")
  with assms show ?thesis
    by (simp add: overflow_def append_chunk_def Let_def)
qed

lemma body_empty_cur_advances:
  assumes "0 < T" "cur st = []"
  shows "\<exists>st'. body ENC fn T ov ss st = Some st' \<and> i st' = i st + 1"
proof -
  from split_text_by_tokens_total [OF assms(1)]
  obtain ps where "split_text_by_tokens ENC (strip (s_text (ss ! i st))) T ov = Some ps"
    by blast
  with assms(2) show ?thesis by (simp add: body_def Let_def)
qed

text \<open>
  C2: for every sentence sequence, every positive target budget and every overlap
  budget (also \<open>O \<ge> T\<close>), \<open>chunk_sentences\<close> returns, after at most three rounds of its
  loop per sentence; in particular, when the computed overlap has the sentence count
  of the just-finalized chunk and its token total, the overflow branch leaves the
  accumulator empty, and from an empty accumulator the next round advances \<open>i\<close>.
\<close>

theorem chunk_sentences_terminates:
  "(0 < target_tokens \<longrightarrow>
      (\<exists>cs n. chunk_sentences ENC sentences file_name target_tokens overlap_tokens = Some cs
         \<and> iterations ENC file_name target_tokens overlap_tokens sentences init = Some n
         \<and> n \<le> 3 * length sentences))
   \<and> (\<forall>st. length (fst (overlap_walk ENC overlap_tokens (rev (cur st)) [] 0)) = length (cur st)
           \<and> snd (overlap_walk ENC overlap_tokens (rev (cur st)) [] 0) = cur_toks st \<longrightarrow>
         cur (overflow ENC file_name overlap_tokens st) = []
           \<and> cur_toks (overflow ENC file_name overlap_tokens st) = 0)
   \<and> (\<forall>st. 0 < target_tokens \<and> cur st = [] \<longrightarrow>
         (\<exists>st'. body ENC file_name target_tokens overlap_tokens sentences st = Some st'
            \<and> i st' = i st + 1))"
proof (intro conjI allI impI)
  assume T: "0 < target_tokens"
  from while_loop_total [OF T, of ENC file_name overlap_tokens sentences init]
  obtain cs where cs: "chunk_sentences ENC sentences file_name target_tokens overlap_tokens = Some cs"
    by (auto simp: chunk_sentences_def run_def split: option.splits)
  from iterations_total [OF T]
  obtain n where n: "iterations ENC file_name target_tokens overlap_tokens sentences init = Some n"
    by blast
  from iterations_bound [OF n] have "n \<le> 3 * length sentences"
    by (simp add: phase_def init_def)
  with cs n show "\<exists>cs n. chunk_sentences ENC sentences file_name target_tokens overlap_tokens = Some cs
         \<and> iterations ENC file_name target_tokens overlap_tokens sentences init = Some n
         \<and> n \<le> 3 * length sentences" by blast
next
  fix st :: state
  assume "length (fst (overlap_walk ENC overlap_tokens (rev (cur st)) [] 0)) = length (cur st)
           \<and> snd (overlap_walk ENC overlap_tokens (rev (cur st)) [] 0) = cur_toks st"
  then show "cur (overflow ENC file_name overlap_tokens st) = []"
    and "cur_toks (overflow ENC file_name overlap_tokens st) = 0"
    using overflow_guard by blast+
next
  fix st :: state
  assume "0 < target_tokens \<and> cur st = []"
  then show "\<exists>st'. body ENC file_name target_tokens overlap_tokens sentences st = Some st'
            \<and> i st' = i st + 1"
    using body_empty_cur_advances by blast
qed

theorem chunk_sentences_terminates_witness:
  "(0 :: int) < 10 \<and>
   (\<exists>cs n. chunk_sentences char_tokenizer
        [\<lparr>s_text = ''aaaaaaaaa'', page = None\<rparr>, \<lparr>s_text = ''bbbbbbbbb'', page = None\<rparr>]
        ''doc'' 10 10 = Some cs
      \<and> iterations char_tokenizer ''doc'' 10 10
        [\<lparr>s_text = ''aaaaaaaaa'', page = None\<rparr>, \<lparr>s_text = ''bbbbbbbbb'', page = None\<rparr>] init
        = Some n
      \<and> n \<le> 3 * length
        [\<lparr>s_text = ''aaaaaaaaa'', page = None\<rparr>, \<lparr>s_text = ''bbbbbbbbb'', page = None\<rparr>])
   \<and> cur (overflow char_tokenizer ''doc'' 10
        (init\<lparr>cur := [\<lparr>s_text = ''aaaaaaaaa'', page = None\<rparr>], cur_toks := 9\<rparr>)) = []
   \<and> (\<exists>st'. body char_tokenizer ''doc'' 10 10
        [\<lparr>s_text = ''aaaaaaaaa'', page = None\<rparr>, \<lparr>s_text = ''bbbbbbbbb'', page = None\<rparr>]
        init = Some st' \<and> i st' = i init + 1)"
proof -
  let ?ss = "[\<lparr>s_text = ''aaaaaaaaa'', page = None\<rparr>, \<lparr>s_text = ''bbbbbbbbb'', page = None\<rparr>]"
  let ?st = "init\<lparr>cur := [\<lparr>s_text = ''aaaaaaaaa'', page = None\<rparr>], cur_toks := 9\<rparr>"
  note inst = chunk_sentences_terminates [of 10 char_tokenizer ?ss "''doc''" 10]
  have h: "(0 :: int) < 10" by simp
  have g: "length (fst (overlap_walk char_tokenizer 10 (rev (cur ?st)) [] 0)) = length (cur ?st)
           \<and> snd (overlap_walk char_tokenizer 10 (rev (cur ?st)) [] 0) = cur_toks ?st"
    by (simp add: tok_len_def char_tokenizer_def)
  have e: "(0 :: int) < 10 \<and> cur init = []" by (simp add: init_def)
  from inst h have a: "\<exists>cs n. chunk_sentences char_tokenizer ?ss ''doc'' 10 10 = Some cs
      \<and> iterations char_tokenizer ''doc'' 10 10 ?ss init = Some n \<and> n \<le> 3 * length ?ss"
    by blast
  from inst g have b: "cur (overflow char_tokenizer ''doc'' 10 ?st) = []"
    by blast
  from inst e have c: "\<exists>st'. body char_tokenizer ''doc'' 10 10 ?ss init = Some st' \<and> i st' = i init + 1"
    by blast
  from h a b c show ?thesis by blast
qed

subsection \<open>The overflow branch\<close>

text \<open>What the overlap loop returns, for any starting \<open>overlap\<close> and \<open>overlap_toks\<close>.\<close>

lemma overlap_walk_spec:
  "overlap_walk ENC ov xs acc a = (r, t) \<Longrightarrow>
     \<exists>p. r = acc @ p \<and> t = a + toks_sum ENC p \<and> prefix p xs
       \<and> (acc = [] \<and> xs \<noteq> [] \<longrightarrow> p \<noteq> [])
       \<and> (\<forall>q. prefix q p \<and> q \<noteq> [] \<and> (acc \<noteq> [] \<or> 2 \<le> length q) \<longrightarrow> a + toks_sum ENC q \<le> ov)
       \<and> (p = xs \<or> (\<exists>x rest. xs = p @ x # rest \<and> a + toks_sum ENC (p @ [x]) > ov))"
proof (induction xs arbitrary: acc a)
  case Nil
  then show ?case by simp
next
  case (Cons x xs)
  let ?tt = "tok_len ENC (s_text x)"
  show ?case
  proof (cases "acc \<noteq> [] \<and> a + ?tt > ov")
    case True
    with Cons.prems have "r = acc" "t = a" by (auto simp: Let_def)
    with True show ?thesis by (intro exI [of _ "[]"]) auto
  next
    case False
    with Cons.prems have "overlap_walk ENC ov xs (acc @ [x]) (a + ?tt) = (r, t)"
      by (auto simp: Let_def)
    from Cons.IH [OF this] obtain p where p:
      "r = (acc @ [x]) @ p" "t = a + ?tt + toks_sum ENC p" "prefix p xs"
      "\<forall>q. prefix q p \<and> q \<noteq> [] \<longrightarrow> a + ?tt + toks_sum ENC q \<le> ov"
      "p = xs \<or> (\<exists>y rest. xs = p @ y # rest \<and> a + ?tt + toks_sum ENC (p @ [y]) > ov)"
      by auto
    have budget: "a + toks_sum ENC q \<le> ov"
      if q: "prefix q (x # p)" "q \<noteq> []" "acc \<noteq> [] \<or> 2 \<le> length q" for q
    proof -
      from q(1,2) obtain q' where q': "q = x # q'" "prefix q' p"
        by (cases q) auto
      show ?thesis
      proof (cases "q' = []")
        case True
        with q' q(3) have "acc \<noteq> []" by auto
        with False True q' show ?thesis by auto
      next
        case False
        with p(4) q' show ?thesis by auto
      qed
    qed
    from p(5) have "x # p = x # xs \<or>
        (\<exists>y rest. x # xs = (x # p) @ y # rest \<and> a + toks_sum ENC ((x # p) @ [y]) > ov)"
      by auto
    with p(1,2,3) budget show ?thesis
      by (intro exI [of _ "x # p"]) auto
  qed
qed

text \<open>The same read on the chunk in its original order.\<close>

lemma overlap_of_chunk:
  assumes "overlap_walk ENC ov (rev c) [] 0 = (r, t)" "c \<noteq> []"
  shows "t = toks_sum ENC (rev r) \<and> suffix (rev r) c \<and> rev r \<noteq> [] \<and> last (rev r) = last c
       \<and> (\<forall>ys. suffix ys (rev r) \<and> 2 \<le> length ys \<longrightarrow> toks_sum ENC ys \<le> ov)
       \<and> (rev r = c \<or> (\<exists>pre x. c = pre @ x # rev r \<and> toks_sum ENC (x # rev r) > ov))"
proof -
  from overlap_walk_spec [OF assms(1)] assms(2) obtain p where p:
    "r = p" "t = toks_sum ENC p" "prefix p (rev c)" "p \<noteq> []"
    "\<forall>q. prefix q p \<and> q \<noteq> [] \<and> 2 \<le> length q \<longrightarrow> toks_sum ENC q \<le> ov"
    "p = rev c \<or> (\<exists>x rest. rev c = p @ x # rest \<and> toks_sum ENC (p @ [x]) > ov)"
    by auto
  from p(3) have suf: "suffix (rev p) c"
    by (metis rev_rev_ident suffix_to_prefix)
  from suf p(4) have la: "last (rev p) = last c"
    by (auto simp: suffix_def)
  have bud: "toks_sum ENC ys \<le> ov" if "suffix ys (rev p)" "2 \<le> length ys" for ys
  proof -
    from that(1) have "prefix (rev ys) p"
      by (metis rev_rev_ident suffix_to_prefix)
    moreover from that(2) have "rev ys \<noteq> []" "2 \<le> length (rev ys)" by auto
    ultimately have "toks_sum ENC (rev ys) \<le> ov" using p(5) by blast
    then show ?thesis by simp
  qed
  have mx: "rev p = c \<or> (\<exists>pre x. c = pre @ x # rev p \<and> toks_sum ENC (x # rev p) > ov)"
  proof (cases "p = rev c")
    case True
    then show ?thesis by simp
  next
    case False
    with p(6) obtain x rest where x: "rev c = p @ x # rest" "toks_sum ENC (p @ [x]) > ov"
      by blast
    from x(1) have "c = rev rest @ x # rev p"
      by (metis rev.simps(2) rev_append rev_rev_ident append_assoc append_Cons append_Nil)
    with x(2) show ?thesis by auto
  qed
  from p(1,2,4) suf la bud mx show ?thesis by simp
qed


text \<open>
  The overflow branch at any state: when the next sentence is not blank, fits \<open>T\<close> alone
  and would overflow the non-empty accumulator, the round finalizes the accumulator under
  the current chunk number, leaves \<open>i\<close> where it is (the sentence is retried), and seeds
  the next accumulator with \<open>seed\<close>: a suffix of the finalized chunk in its original
  order, holding its last sentence, every suffix of it of two or more sentences within
  \<open>O\<close> tokens, and either the whole chunk or stopped by a sentence that would take it
  over \<open>O\<close>.  The guard compares the sentence count and the token total with
  \<open>cur_toks\<close>; where \<open>cur_toks\<close> is the token total of the accumulator's sentences, as
  it is when sentence texts are trimmed, the seed is discarded exactly when it is the
  whole chunk.
\<close>

theorem overflow_step:
  assumes "i st < length sentences"
    and "strip (s_text (sentences ! i st)) \<noteq> []"
    and "tok_len ENC (strip (s_text (sentences ! i st))) \<le> target_tokens"
    and "cur st \<noteq> []"
    and "cur_toks st + tok_len ENC (strip (s_text (sentences ! i st))) > target_tokens"
  shows "\<exists>seed st'.
      body ENC file_name target_tokens overlap_tokens sentences st = Some st'
    \<and> chunks st' = chunks st @ [finalize file_name (cur st) (chunk_no st)]
    \<and> chunk_no st' = chunk_no st + 1
    \<and> i st' = i st
    \<and> suffix seed (cur st) \<and> seed \<noteq> [] \<and> last seed = last (cur st)
    \<and> (\<forall>ys. suffix ys seed \<and> 2 \<le> length ys \<longrightarrow> toks_sum ENC ys \<le> overlap_tokens)
    \<and> (seed = cur st \<or>
         (\<exists>pre x. cur st = pre @ x # seed \<and> toks_sum ENC (x # seed) > overlap_tokens))
    \<and> (if length seed = length (cur st) \<and> toks_sum ENC seed = cur_toks st
        then cur st' = [] \<and> cur_toks st' = 0
        else cur st' = seed \<and> cur_toks st' = toks_sum ENC seed)
    \<and> (cur_toks st = toks_sum ENC (cur st) \<longrightarrow> (cur st' = [] \<longleftrightarrow> seed = cur st))"
proof -
  obtain r t where w: "overlap_walk ENC overlap_tokens (rev (cur st)) [] 0 = (r, t)"
    by (cases "overlap_walk ENC overlap_tokens (rev (cur st)) [] 0")
  define st' where "st' = overflow ENC file_name overlap_tokens st"
  from assms have b: "body ENC file_name target_tokens overlap_tokens sentences st = Some st'"
    by (simp add: body_def Let_def st'_def)
  from overlap_of_chunk [OF w assms(4)] have sp:
    "t = toks_sum ENC (rev r)" "suffix (rev r) (cur st)" "rev r \<noteq> []"
    "last (rev r) = last (cur st)"
    "\<forall>ys. suffix ys (rev r) \<and> 2 \<le> length ys \<longrightarrow> toks_sum ENC ys \<le> overlap_tokens"
    "rev r = cur st \<or>
       (\<exists>pre x. cur st = pre @ x # rev r \<and> toks_sum ENC (x # rev r) > overlap_tokens)"
    by blast+
  have c: "chunks st' = chunks st @ [finalize file_name (cur st) (chunk_no st)]"
    "chunk_no st' = chunk_no st + 1" "i st' = i st"
    using w by (simp_all add: st'_def overflow_def append_chunk_def Let_def)
  have g: "if length (rev r) = length (cur st) \<and> toks_sum ENC (rev r) = cur_toks st
        then cur st' = [] \<and> cur_toks st' = 0
        else cur st' = rev r \<and> cur_toks st' = toks_sum ENC (rev r)"
    using w sp(1) by (simp add: st'_def overflow_def append_chunk_def Let_def)
  have same: "length (rev r) = length (cur st) \<longleftrightarrow> rev r = cur st"
  proof
    assume "length (rev r) = length (cur st)"
    with sp(2) show "rev r = cur st" by (auto simp: suffix_def)
  next
    assume "rev r = cur st"
    then show "length (rev r) = length (cur st)" by (rule arg_cong)
  qed
  have e: "cur_toks st = toks_sum ENC (cur st) \<longrightarrow> (cur st' = [] \<longleftrightarrow> rev r = cur st)"
  proof
    assume inv: "cur_toks st = toks_sum ENC (cur st)"
    show "cur st' = [] \<longleftrightarrow> rev r = cur st"
    proof (cases "rev r = cur st")
      case True
      with g inv show ?thesis by simp
    next
      case False
      with same g sp(3) show ?thesis by auto
    qed
  qed
  from b c sp(2-6) g e show ?thesis by blast
qed

theorem overflow_step_witness:
  "\<exists>st'. body char_tokenizer ''doc'' 10 5
        [\<lparr>s_text = ''aaaaaa'', page = None\<rparr>, \<lparr>s_text = ''bbb'', page = None\<rparr>,
         \<lparr>s_text = ''cccccccc'', page = None\<rparr>]
        (init\<lparr>i := 2, cur := [\<lparr>s_text = ''aaaaaa'', page = None\<rparr>, \<lparr>s_text = ''bbb'', page = None\<rparr>],
              cur_toks := 9\<rparr>) = Some st'
     \<and> i st' = 2 \<and> chunk_no st' = 2 \<and> cur st' = [\<lparr>s_text = ''bbb'', page = None\<rparr>]
     \<and> cur_toks st' = 3"
proof -
  let ?a = "\<lparr>s_text = ''aaaaaa'', page = None\<rparr>"
  let ?b = "\<lparr>s_text = ''bbb'', page = None\<rparr>"
  let ?c = "\<lparr>s_text = ''cccccccc'', page = None\<rparr>"
  let ?st = "init\<lparr>i := 2, cur := [?a, ?b], cur_toks := 9\<rparr>"
  have sc: "strip ''cccccccc'' = ''cccccccc''"
    by (simp add: strip_def is_space_def)
  have h1: "i ?st < length [?a, ?b, ?c]" by simp
  have h2: "strip (s_text ([?a, ?b, ?c] ! i ?st)) \<noteq> []" by (simp add: sc)
  have h3: "tok_len char_tokenizer (strip (s_text ([?a, ?b, ?c] ! i ?st))) \<le> 10"
    by (simp add: sc tok_len_def char_tokenizer_def)
  have h4: "cur ?st \<noteq> []" by simp
  have h5: "cur_toks ?st + tok_len char_tokenizer (strip (s_text ([?a, ?b, ?c] ! i ?st))) > 10"
    by (simp add: sc tok_len_def char_tokenizer_def)
  from overflow_step [OF h1 h2 h3 h4 h5, of "''doc''" 5] obtain seed st' where r:
    "body char_tokenizer ''doc'' 10 5 [?a, ?b, ?c] ?st = Some st'"
    "chunk_no st' = chunk_no ?st + 1" "i st' = i ?st"
    "suffix seed (cur ?st)" "seed \<noteq> []"
    "seed = cur ?st \<or>
       (\<exists>pre x. cur ?st = pre @ x # seed \<and> toks_sum char_tokenizer (x # seed) > 5)"
    "\<forall>ys. suffix ys seed \<and> 2 \<le> length ys \<longrightarrow> toks_sum char_tokenizer ys \<le> 5"
    "if length seed = length (cur ?st) \<and> toks_sum char_tokenizer seed = cur_toks ?st
        then cur st' = [] \<and> cur_toks st' = 0
        else cur st' = seed \<and> cur_toks st' = toks_sum char_tokenizer seed"
    by blast
  have "seed \<noteq> [?a, ?b]"
  proof
    assume "seed = [?a, ?b]"
    with r(7) have "toks_sum char_tokenizer [?a, ?b] \<le> 5" by auto
    then show False by (simp add: tok_len_def char_tokenizer_def)
  qed
  with r(4,5) have seed: "seed = [?b]"
    by (auto simp: suffix_Cons init_def)
  with r(8) have "cur st' = [?b] \<and> cur_toks st' = 3"
    by (simp add: tok_len_def char_tokenizer_def)
  with r(1,2,3) show ?thesis by (simp add: init_def)
qed

text \<open>
  C3: the seed of the next accumulator is discarded exactly when it equals the whole
  finalized chunk (the comment at the guard says so: no infinite loop when the overlap is
  the entire chunk).  The code misses this where a sentence text is not trimmed.  With one
  token per character and \<open>T = 3\<close>, the sentence \<open> ab \<close> is accumulated with the 2
  tokens of its trimmed text, the overlap loop counts the 4 tokens of the text as it is,
  the guard compares 4 with 2, and the seed, which is the whole chunk, is kept: the second
  round leaves \<open>i\<close> at 1 with the same accumulator, and the chunk \<open>ab\<close> is emitted twice.
\<close>

theorem whole_chunk_seed_kept:
  "body char_tokenizer ''doc'' 3 0
      [\<lparr>s_text = '' ab '', page = None\<rparr>, \<lparr>s_text = ''cd'', page = None\<rparr>] init
     = Some (init\<lparr>i := 1, cur := [\<lparr>s_text = '' ab '', page = None\<rparr>], cur_toks := 2\<rparr>)
   \<and> fst (overlap_walk char_tokenizer 0 (rev [\<lparr>s_text = '' ab '', page = None\<rparr>]) [] 0)
       = [\<lparr>s_text = '' ab '', page = None\<rparr>]
   \<and> map_option (\<lambda>st. (i st, cur st, cur_toks st))
       (body char_tokenizer ''doc'' 3 0
         [\<lparr>s_text = '' ab '', page = None\<rparr>, \<lparr>s_text = ''cd'', page = None\<rparr>]
         (init\<lparr>i := 1, cur := [\<lparr>s_text = '' ab '', page = None\<rparr>], cur_toks := 2\<rparr>))
     = Some (1, [\<lparr>s_text = '' ab '', page = None\<rparr>], 4)
   \<and> map_option (map raw_text) (chunk_sentences char_tokenizer
         [\<lparr>s_text = '' ab '', page = None\<rparr>, \<lparr>s_text = ''cd'', page = None\<rparr>] ''doc'' 3 0)
     = Some [''ab'', ''ab'', ''cd'']"
  by code_simp

subsection \<open>The branches of the loop body\<close>

lemma body_cases [consumes 1, case_names Blank Oversized Overflow Add]:
  assumes "body ENC fn T ov ss st = Some st'"
  obtains
    "strip (s_text (ss ! i st)) = []" "st' = st\<lparr>i := i st + 1\<rparr>"
  | parts where "strip (s_text (ss ! i st)) \<noteq> []"
      "tok_len ENC (strip (s_text (ss ! i st))) > T"
      "split_text_by_tokens ENC (strip (s_text (ss ! i st))) T ov = Some parts"
      "st' = (foldl (emit_part fn (page (ss ! i st))) (flush fn st) parts)\<lparr>i := i st + 1\<rparr>"
  | "strip (s_text (ss ! i st)) \<noteq> []"
      "tok_len ENC (strip (s_text (ss ! i st))) \<le> T"
      "cur st \<noteq> []" "cur_toks st + tok_len ENC (strip (s_text (ss ! i st))) > T"
      "st' = overflow ENC fn ov st"
  | "strip (s_text (ss ! i st)) \<noteq> []"
      "tok_len ENC (strip (s_text (ss ! i st))) \<le> T"
      "cur st = [] \<or> cur_toks st + tok_len ENC (strip (s_text (ss ! i st))) \<le> T"
      "st' = st\<lparr>cur := cur st @ [ss ! i st],
                 cur_toks := cur_toks st + tok_len ENC (strip (s_text (ss ! i st))),
                 i := i st + 1\<rparr>"
  using assms by (auto simp: body_def Let_def split: if_splits option.splits)

lemma emit_parts_fields:
  "cur (foldl (emit_part fn pg) st parts) = cur st"
  "cur_toks (foldl (emit_part fn pg) st parts) = cur_toks st"
  "carried (foldl (emit_part fn pg) st parts) = carried st"
  "i (foldl (emit_part fn pg) st parts) = i st"
  "emitted (foldl (emit_part fn pg) st parts) =
     emitted st @ map (\<lambda>p. (Split_Piece, 0, [\<lparr>s_text = p, page = pg\<rparr>])) parts"
  by (induction parts arbitrary: st) (simp_all add: emit_part_def append_chunk_def)

lemma overflow_fields:
  assumes "overlap_walk ENC ov (rev (cur st)) [] 0 = (r, t)"
  shows "emitted (overflow ENC fn ov st) = emitted st @ [(Accumulated, carried st, cur st)]"
    and "cur (overflow ENC fn ov st) =
          (if length r = length (cur st) \<and> t = cur_toks st then [] else rev r)"
    and "cur_toks (overflow ENC fn ov st) =
          (if length r = length (cur st) \<and> t = cur_toks st then 0 else t)"
    and "carried (overflow ENC fn ov st) = length (cur (overflow ENC fn ov st))"
  using assms by (simp_all add: overflow_def append_chunk_def Let_def)

subsection \<open>The token budget\<close>

lemma toks_sum_nonneg: "0 \<le> toks_sum ENC xs"
  by (induction xs) (simp_all add: tok_len_nonneg)

lemma toks_sum_suffix: "suffix ys xs \<Longrightarrow> toks_sum ENC ys \<le> toks_sum ENC xs"
  by (auto simp: suffix_def toks_sum_nonneg)

text \<open>
  The invariant of the accumulator when sentence texts are trimmed: \<open>cur_toks\<close> is the
  token total of the sentences in \<open>cur\<close>, a non-empty accumulator is within the target,
  and so is every accumulated chunk emitted so far.
\<close>

definition within_budget :: "tokenizer \<Rightarrow> int \<Rightarrow> state \<Rightarrow> bool" where
  "within_budget ENC T st \<longleftrightarrow>
     cur_toks st = toks_sum ENC (cur st) \<and> (cur st \<noteq> [] \<longrightarrow> toks_sum ENC (cur st) \<le> T) \<and>
     list_all (\<lambda>e. fst e = Accumulated \<longrightarrow> toks_sum ENC (snd (snd e)) \<le> T) (emitted st)"

lemma within_budget_init: "within_budget ENC T init"
  by (simp add: within_budget_def init_def)

lemma within_budget_flush: "within_budget ENC T st \<Longrightarrow> within_budget ENC T (flush fn st)"
  by (simp add: within_budget_def flush_def append_chunk_def)

lemma within_budget_overflow:
  assumes "within_budget ENC T st" "cur st \<noteq> []"
  shows "within_budget ENC T (overflow ENC fn ov st)"
proof -
  obtain r t where w: "overlap_walk ENC ov (rev (cur st)) [] 0 = (r, t)"
    by (cases "overlap_walk ENC ov (rev (cur st)) [] 0")
  from overlap_of_chunk [OF w assms(2)] have t: "t = toks_sum ENC (rev r)"
    and suf: "suffix (rev r) (cur st)" by blast+
  from toks_sum_suffix [OF suf, of ENC] assms have "toks_sum ENC (rev r) \<le> T"
    by (auto simp: within_budget_def)
  with assms t show ?thesis
    by (simp add: within_budget_def overflow_fields [OF w])
qed

lemma within_budget_body:
  assumes "within_budget ENC T st" "i st < length ss"
    and "\<forall>s \<in> set ss. strip (s_text s) = s_text s"
    and "body ENC fn T ov ss st = Some st'"
  shows "within_budget ENC T st'"
  using assms(4)
proof (cases rule: body_cases)
  case Blank
  with assms(1) show ?thesis by (simp add: within_budget_def)
next
  case (Oversized parts)
  from within_budget_flush [OF assms(1)] have "within_budget ENC T (flush fn st)" .
  with Oversized(4) show ?thesis
    by (auto simp: within_budget_def emit_parts_fields list_all_iff)
next
  case Overflow
  with within_budget_overflow [OF assms(1)] show ?thesis by simp
next
  case Add
  from assms(2,3) have "strip (s_text (ss ! i st)) = s_text (ss ! i st)" by simp
  with Add assms(1) show ?thesis
    by (auto simp: within_budget_def)
qed

text \<open>
  The ghost record and the chunks go together: the chunk at each position is
  \<open>finalize\<close> of the recorded sentences under the number of that position.
\<close>

definition linked :: "string \<Rightarrow> state \<Rightarrow> bool" where
  "linked fn st \<longleftrightarrow>
     chunk_no st = int (length (chunks st)) + 1 \<and>
     length (emitted st) = length (chunks st) \<and>
     chunks st = map (\<lambda>(e, n). finalize fn (snd (snd e)) n)
                   (zip (emitted st) [1 .. int (length (chunks st))])"

lemma length_upto_int [simp]: "length [1 .. int n] = n"
  by simp

lemma linked_init: "linked fn init"
  by (simp add: linked_def init_def)

lemma linked_append:
  assumes "linked fn st"
  shows "linked fn ((append_chunk fn kind k g st)\<lparr>chunk_no := chunk_no st + 1\<rparr>)"
  using assms by (simp add: linked_def append_chunk_def upto_snoc add.commute)

lemma linked_irrelevant [simp]:
  "linked fn (st\<lparr>i := a\<rparr>) = linked fn st"
  "linked fn (st\<lparr>cur := b\<rparr>) = linked fn st"
  "linked fn (st\<lparr>cur_toks := c\<rparr>) = linked fn st"
  "linked fn (st\<lparr>carried := d\<rparr>) = linked fn st"
  by (simp_all add: linked_def)

lemma linked_flush: "linked fn st \<Longrightarrow> linked fn (flush fn st)"
  using linked_append [of fn st Accumulated "carried st" "cur st"]
  by (simp add: flush_def)

lemma linked_emit_part: "linked fn st \<Longrightarrow> linked fn (emit_part fn pg st part)"
  using linked_append [of fn st Split_Piece 0] by (simp add: emit_part_def)

lemma linked_parts: "linked fn st \<Longrightarrow> linked fn (foldl (emit_part fn pg) st parts)"
  by (induction parts arbitrary: st) (simp_all add: linked_emit_part)

lemma linked_overflow: "linked fn st \<Longrightarrow> linked fn (overflow ENC fn ov st)"
  using linked_append [of fn st Accumulated "carried st" "cur st"]
  by (simp add: overflow_def Let_def split: prod.splits)

lemma linked_body:
  assumes "linked fn st" "body ENC fn T ov ss st = Some st'"
  shows "linked fn st'"
  using assms(2)
proof (cases rule: body_cases)
  case Blank
  with assms(1) show ?thesis by simp
next
  case (Oversized parts)
  with linked_parts [OF linked_flush [OF assms(1)]] show ?thesis by simp
next
  case Overflow
  with linked_overflow [OF assms(1)] show ?thesis by simp
next
  case Add
  with assms(1) show ?thesis by simp
qed


lemma run_linked:
  assumes "run ENC ss fn T ov = Some fin"
  shows "length (emitted fin) = length (chunks fin) \<and>
     (\<forall>k < length (chunks fin). chunks fin ! k = finalize fn (snd (snd (emitted fin ! k))) (int k + 1))"
proof -
  from assms obtain st where w: "while_loop ENC fn T ov ss init = Some st"
    and fin: "fin = (if cur st \<noteq> [] then append_chunk fn Accumulated (carried st) (cur st) st else st)"
    by (auto simp: run_def split: option.splits)
  from while_loop_invariant [OF w, of "linked fn"] linked_init linked_body
  have "linked fn st" by blast
  then have "linked fn (fin\<lparr>chunk_no := int (length (chunks fin)) + 1\<rparr>)"
    using linked_append [of fn st Accumulated "carried st" "cur st"]
    by (auto simp: fin linked_def append_chunk_def)
  then have len: "length (emitted fin) = length (chunks fin)"
    and m: "chunks fin = map (\<lambda>(e, n). finalize fn (snd (snd e)) n)
                   (zip (emitted fin) [1 .. int (length (chunks fin))])"
    by (simp_all add: linked_def)
  have "chunks fin ! k = finalize fn (snd (snd (emitted fin ! k))) (int k + 1)"
    if "k < length (chunks fin)" for k
  proof -
    from that len have "zip (emitted fin) [1 .. int (length (chunks fin))] ! k
        = (emitted fin ! k, 1 + int k)"
      by (simp add: nth_upto)
    with that len show ?thesis
      by (subst m) (simp add: add.commute)
  qed
  with len show ?thesis by blast
qed

lemma run_within_budget:
  assumes "run ENC ss fn T ov = Some fin" "\<forall>s \<in> set ss. strip (s_text s) = s_text s"
  shows "list_all (\<lambda>e. fst e = Accumulated \<longrightarrow> toks_sum ENC (snd (snd e)) \<le> T) (emitted fin)"
proof -
  from assms obtain st where w: "while_loop ENC fn T ov ss init = Some st"
    and fin: "fin = (if cur st \<noteq> [] then append_chunk fn Accumulated (carried st) (cur st) st else st)"
    by (auto simp: run_def split: option.splits)
  have "within_budget ENC T st"
    using while_loop_invariant [OF w, of "within_budget ENC T"] within_budget_init
      within_budget_body [OF _ _ assms(2)] by blast
  then show ?thesis
    by (auto simp: fin within_budget_def append_chunk_def)
qed

lemma run_total: "0 < T \<Longrightarrow> \<exists>fin. run ENC ss fn T ov = Some fin"
  using while_loop_total [of T ENC fn ov ss init] by (auto simp: run_def)

text \<open>
  C1, as amended: for sentences whose texts are already trimmed and a positive target
  budget \<open>T\<close>, \<open>chunk_sentences\<close> returns, and every returned chunk that was not
  produced by the oversized-sentence splitter is \<open>finalize\<close> of sentences whose token
  lengths, each tokenized alone, sum to at most \<open>T\<close>.
\<close>

theorem accumulated_chunks_within_budget:
  assumes "\<forall>s \<in> set sentences. strip (s_text s) = s_text s" and "0 < target_tokens"
  shows "\<exists>cs es.
      chunk_sentences ENC sentences file_name target_tokens overlap_tokens = Some cs
    \<and> chunk_origins ENC sentences file_name target_tokens overlap_tokens = Some es
    \<and> length es = length cs
    \<and> (\<forall>k < length cs.
          cs ! k = finalize file_name (snd (snd (es ! k))) (int k + 1)
        \<and> (fst (es ! k) = Accumulated \<longrightarrow> toks_sum ENC (snd (snd (es ! k))) \<le> target_tokens))"
proof -
  from run_total [OF assms(2)] obtain fin where
    r: "run ENC sentences file_name target_tokens overlap_tokens = Some fin" by blast
  from run_linked [OF r] have len: "length (emitted fin) = length (chunks fin)"
    and fz: "\<forall>k < length (chunks fin).
        chunks fin ! k = finalize file_name (snd (snd (emitted fin ! k))) (int k + 1)"
    by blast+
  from run_within_budget [OF r assms(1)] len
  have "\<forall>k < length (chunks fin). fst (emitted fin ! k) = Accumulated \<longrightarrow>
      toks_sum ENC (snd (snd (emitted fin ! k))) \<le> target_tokens"
    by (simp add: list_all_length)
  with r len fz show ?thesis
    by (simp add: chunk_sentences_def chunk_origins_def)
qed

theorem accumulated_chunks_within_budget_witness:
  "(0 :: int) < 4 \<and>
   (\<exists>cs es.
      chunk_sentences char_tokenizer
        [\<lparr>s_text = ''ab'', page = None\<rparr>, \<lparr>s_text = ''cd'', page = None\<rparr>] ''doc'' 4 0 = Some cs
    \<and> chunk_origins char_tokenizer
        [\<lparr>s_text = ''ab'', page = None\<rparr>, \<lparr>s_text = ''cd'', page = None\<rparr>] ''doc'' 4 0 = Some es
    \<and> length es = length cs
    \<and> (\<forall>k < length cs.
          cs ! k = finalize ''doc'' (snd (snd (es ! k))) (int k + 1)
        \<and> (fst (es ! k) = Accumulated \<longrightarrow> toks_sum char_tokenizer (snd (snd (es ! k))) \<le> 4)))"
proof -
  have h1: "\<forall>s \<in> set [\<lparr>s_text = ''ab'', page = None\<rparr>, \<lparr>s_text = ''cd'', page = None\<rparr>].
      strip (s_text s) = s_text s"
    by (simp add: strip_def is_space_def)
  have h2: "(0 :: int) < 4" by simp
  from h2 accumulated_chunks_within_budget [OF h1 h2, of char_tokenizer "''doc''" 0]
  show ?thesis by blast
qed

text \<open>
  C1 as stated (the token length of \<open>raw_text\<close> is at most \<open>T\<close>) fails: the budget
  counts each sentence alone, and \<open>raw_text\<close> joins them with spaces.  With one token per
  character and \<open>T = 4\<close>, the sentences \<open>ab\<close> and \<open>cd\<close> (2 + 2 tokens) make one accumulated
  chunk whose raw text \<open>ab cd\<close> has 5 tokens.
\<close>

theorem joined_text_over_budget:
  "chunk_sentences char_tokenizer
     [\<lparr>s_text = ''ab'', page = None\<rparr>, \<lparr>s_text = ''cd'', page = None\<rparr>] ''doc'' 4 0
     = Some [\<lparr>chunk_number = 1, page_number = ''1'',
              embedded_text = ''doc'' @ [CHR 0x0A, CHR 0x0A] @ ''ab cd'', raw_text = ''ab cd''\<rparr>]
   \<and> chunk_origins char_tokenizer
     [\<lparr>s_text = ''ab'', page = None\<rparr>, \<lparr>s_text = ''cd'', page = None\<rparr>] ''doc'' 4 0
     = Some [(Accumulated, 0, [\<lparr>s_text = ''ab'', page = None\<rparr>, \<lparr>s_text = ''cd'', page = None\<rparr>])]
   \<and> tok_len char_tokenizer ''ab cd'' = 5
   \<and> \<not> tok_len char_tokenizer ''ab cd'' \<le> 4"
  by code_simp

subsection \<open>Coverage of the input\<close>

text \<open>
  A ghost entry is well carried when its count of carried sentences is within its group
  and, if positive, those leading sentences stand at the end of the group before it.
\<close>

definition carry_ok :: "(origin \<times> nat \<times> sentence list) list \<Rightarrow> nat \<Rightarrow> sentence list \<Rightarrow> bool" where
  "carry_ok es c g \<longleftrightarrow>
     c \<le> length g \<and> (0 < c \<longrightarrow> es \<noteq> [] \<and> suffix (take c g) (snd (snd (last es))))"

text \<open>The sentences of the emitted groups that were not carried over, in order.\<close>

definition fresh :: "(origin \<times> nat \<times> sentence list) list \<Rightarrow> sentence list" where
  "fresh es = concat (map (\<lambda>e. drop (fst (snd e)) (snd (snd e))) es)"



lemma fresh_snoc [simp]: "fresh (es @ [(k, c, g)]) = fresh es @ drop c g"
  by (simp add: fresh_def)

lemma carry_ok_zero [simp]: "carry_ok es 0 g"
  by (simp add: carry_ok_def)











subsection \<open>The oversized-sentence splitter\<close>

text \<open>
  The windows as the specification words them: width \<open>w\<close>, starts \<open>0\<close>, \<open>step\<close>,
  \<open>2 * step\<close>, ..., up to the first window that reaches the end of the tokens
  (\<open>window_count\<close> of them, for more than \<open>w\<close> tokens).
\<close>

definition window_count :: "nat \<Rightarrow> nat \<Rightarrow> nat \<Rightarrow> nat" where
  "window_count n w step = (n - w + step - 1) div step + 1"

definition sliding_windows :: "'a list \<Rightarrow> nat \<Rightarrow> nat \<Rightarrow> 'a list list" where
  "sliding_windows toks w step =
     map (\<lambda>k. take w (drop (k * step) toks)) [0 ..< window_count (length toks) w step]"

text \<open>Both tokenizers of the concrete inputs are lossless: decoding gives the text back.\<close>

lemma of_char_less_256: "of_char c < (256 :: nat)"
proof -
  have "(of_char c :: nat) mod 256 < 256" by simp
  then show ?thesis by (simp only: of_char_mod_256)
qed

lemma of_char_neq_256 [simp]: "of_char c \<noteq> (256 :: nat)"
proof
  assume "of_char c = (256 :: nat)"
  moreover have "of_char c < (256 :: nat)" by (rule of_char_less_256)
  ultimately show False by (simp only: less_irrefl)
qed

lemma merge_roundtrip: "merge_decode (merge_encode s) = s"
  by (induction s rule: merge_encode.induct) (simp_all add: merge_decode_def)

lemma char_roundtrip: "decode char_tokenizer (encode char_tokenizer s) = s"
  by (simp add: char_tokenizer_def comp_def)

text \<open>A slice inside the list is a \<open>take\<close> of a \<open>drop\<close>.\<close>

lemma py_slice_window:
  assumes "a < length toks"
  shows "py_slice toks (int a) (min (int a + int w) (int (length toks))) = take w (drop a toks)"
proof (cases "a + w \<le> length toks")
  case True
  with assms show ?thesis
    by (simp add: py_slice_def slice_bound_def Let_def min_def nat_int_add)
next
  case False
  with assms have "py_slice toks (int a) (min (int a + int w) (int (length toks))) = drop a toks"
    by (simp add: py_slice_def slice_bound_def Let_def min_def nat_int_add)
  also from False have "\<dots> = take w (drop a toks)" by simp
  finally show ?thesis .
qed

lemma ceil_div_facts:
  fixes d s :: nat
  assumes "0 < s"
  defines "m \<equiv> (d + s - 1) div s"
  shows "d \<le> m * s" and "m * s < d + s" and "k < m \<Longrightarrow> k * s < d"
proof -
  define r where "r = (d + s - 1) mod s"
  have q: "d + s - 1 = m * s + r" by (simp add: m_def r_def)
  have r: "r < s" using assms(1) by (simp add: r_def)
  from q r assms(1) show "d \<le> m * s" by linarith
  from q r assms(1) show "m * s < d + s" by linarith
  assume "k < m"
  then have "Suc k \<le> m" by simp
  then have "Suc k * s \<le> m * s" by (rule mult_le_mono1)
  with q r assms(1) show "k * s < d" by simp
qed

text \<open>One round of the splitter's loop: at the window that reaches the end, and before it.\<close>

lemma split_loop_last:
  assumes "a < length toks" "length toks \<le> a + w"
  shows "split_loop ENC toks (int w) step (int a) pieces =
     Some (if strip (decode ENC (take w (drop a toks))) \<noteq> []
           then pieces @ [strip (decode ENC (take w (drop a toks)))] else pieces)"
proof -
  from assms(2) have "min (int a + int w) (int (length toks)) = int (length toks)"
    by simp
  with assms(1) py_slice_window [OF assms(1), of w] show ?thesis
    by (subst split_loop.simps) (simp add: Let_def)
qed

lemma split_loop_next:
  assumes "a + w < length toks"
  shows "split_loop ENC toks (int w) (int s) (int a) pieces =
     split_loop ENC toks (int w) (int s) (int (a + s))
       (if strip (decode ENC (take w (drop a toks))) \<noteq> []
        then pieces @ [strip (decode ENC (take w (drop a toks)))] else pieces)"
proof -
  from assms have a: "a < length toks" by simp
  from assms have "min (int a + int w) (int (length toks)) = int a + int w"
    by simp
  moreover from assms have "int a + int w \<noteq> int (length toks)" by simp
  ultimately show ?thesis
    using a py_slice_window [OF a, of w]
    by (subst split_loop.simps) (simp add: Let_def)
qed

lemma split_loop_windows:
  assumes s: "0 < s" "s \<le> w" and n: "w < length toks"
    and k: "k < window_count (length toks) w s"
  shows "split_loop ENC toks (int w) (int s) (int (k * s)) pieces =
     Some (pieces @ filter (\<lambda>p. p \<noteq> [])
        (map (\<lambda>j. strip (decode ENC (take w (drop (j * s) toks))))
           [k ..< window_count (length toks) w s]))"
  using k
proof (induction "window_count (length toks) w s - k" arbitrary: k pieces)
  case 0
  then show ?case by simp
next
  case (Suc x)
  define m where "m = (length toks - w + s - 1) div s"
  have c: "window_count (length toks) w s = Suc m"
    by (simp add: window_count_def m_def)
  from ceil_div_facts [OF s(1), where d = "length toks - w"]
  have B: "length toks - w \<le> m * s" and C: "m * s < length toks - w + s"
    and A: "\<And>j. j < m \<Longrightarrow> j * s < length toks - w"
    by (simp_all add: m_def)
  let ?piece = "strip (decode ENC (take w (drop (k * s) toks)))"
  let ?pieces' = "if ?piece \<noteq> [] then pieces @ [?piece] else pieces"
  from Suc.prems c have km: "k \<le> m" by simp
  show ?case
  proof (cases "k = m")
    case True
    with C s(2) n have "k * s < length toks" by simp
    moreover from True B n have "length toks \<le> k * s + w" by simp
    ultimately have "split_loop ENC toks (int w) (int s) (int (k * s)) pieces = Some ?pieces'"
      by (rule split_loop_last)
    moreover from True c have "[k ..< window_count (length toks) w s] = [k]"
      by simp
    ultimately show ?thesis by simp
  next
    case False
    with km have lt: "k < m" by simp
    from A [OF lt] n have "k * s + w < length toks" by simp
    then have "split_loop ENC toks (int w) (int s) (int (k * s)) pieces
        = split_loop ENC toks (int w) (int s) (int (k * s + s)) ?pieces'"
      by (rule split_loop_next)
    also have "k * s + s = Suc k * s" by simp
    finally have st: "split_loop ENC toks (int w) (int s) (int (k * s)) pieces
        = split_loop ENC toks (int w) (int s) (int (Suc k * s)) ?pieces'" .
    from lt c have k1: "Suc k < window_count (length toks) w s" by simp
    from Suc.hyps(2) have "x = window_count (length toks) w s - Suc k" by simp
    from Suc.hyps(1) [OF this k1, of ?pieces']
    have ih: "split_loop ENC toks (int w) (int s) (int (Suc k * s)) ?pieces' =
       Some (?pieces' @ filter (\<lambda>p. p \<noteq> [])
        (map (\<lambda>j. strip (decode ENC (take w (drop (j * s) toks))))
           [Suc k ..< window_count (length toks) w s]))" .
    from Suc.prems have "[k ..< window_count (length toks) w s]
        = k # [Suc k ..< window_count (length toks) w s]"
      by (rule upt_conv_Cons)
    then have "?pieces' @ filter (\<lambda>p. p \<noteq> [])
        (map (\<lambda>j. strip (decode ENC (take w (drop (j * s) toks))))
           [Suc k ..< window_count (length toks) w s])
      = pieces @ filter (\<lambda>p. p \<noteq> [])
        (map (\<lambda>j. strip (decode ENC (take w (drop (j * s) toks))))
           [k ..< window_count (length toks) w s])"
      by simp
    with st ih show ?thesis by (simp only:)
  qed
qed

lemma window_step_nat:
  assumes "0 < T" "0 \<le> ov"
  shows "0 < nat (if 0 < T - ov then T - ov else T)"
    and "nat (if 0 < T - ov then T - ov else T) \<le> nat T"
    and "int (nat (if 0 < T - ov then T - ov else T)) = (if T - max 0 ov \<le> 0 then T else T - max 0 ov)"
  using assms by auto

lemma split_text_windows:
  assumes "0 < T" "0 \<le> ov" "T < int (length (encode ENC text0))"
  shows "split_text_by_tokens ENC text0 T ov =
     Some (filter (\<lambda>p. p \<noteq> []) (map (\<lambda>w. strip (decode ENC w))
       (sliding_windows (encode ENC text0) (nat T) (nat (if 0 < T - ov then T - ov else T)))))"
proof -
  let ?toks = "encode ENC text0"
  let ?s = "nat (if 0 < T - ov then T - ov else T)"
  from assms(1,3) have n: "nat T < length ?toks" by simp
  have k0: "0 < window_count (length ?toks) (nat T) ?s"
    by (simp add: window_count_def)
  from split_loop_windows [OF window_step_nat(1,2) [OF assms(1,2)] n k0, of ENC "[]"]
  have "split_loop ENC ?toks (int (nat T)) (int ?s) 0 [] =
     Some (filter (\<lambda>p. p \<noteq> [])
        (map (\<lambda>j. strip (decode ENC (take (nat T) (drop (j * ?s) ?toks))))
           [0 ..< window_count (length ?toks) (nat T) ?s]))"
    by simp
  moreover from assms(1) have "int (nat T) = T" by simp
  ultimately have "split_loop ENC ?toks T (if T - max 0 ov \<le> 0 then T else T - max 0 ov) 0 [] =
     Some (filter (\<lambda>p. p \<noteq> []) (map (\<lambda>w. strip (decode ENC w))
       (sliding_windows ?toks (nat T) ?s)))"
    by (simp only: window_step_nat(3) [OF assms(1,2)] sliding_windows_def map_map comp_def)
  with assms(3) show ?thesis
    by (simp add: split_text_by_tokens_def Let_def)
qed

lemma sliding_windows_length:
  "w' \<in> set (sliding_windows toks w s) \<Longrightarrow> length w' \<le> w"
  by (auto simp: sliding_windows_def)

lemma sliding_windows_reach_end:
  assumes "0 < s" "s \<le> w" "w < length toks" "k < window_count (length toks) w s"
  shows "length toks \<le> k * s + w \<longleftrightarrow> Suc k = window_count (length toks) w s"
proof -
  define m where "m = (length toks - w + s - 1) div s"
  have c: "window_count (length toks) w s = Suc m"
    by (simp add: window_count_def m_def)
  from ceil_div_facts [OF assms(1), where d = "length toks - w"]
  have B: "length toks - w \<le> m * s"
    and A: "\<And>j. j < m \<Longrightarrow> j * s < length toks - w"
    by (simp_all add: m_def)
  show ?thesis
  proof (cases "k = m")
    case True
    with B assms(3) c show ?thesis by simp
  next
    case False
    with assms(4) c have "k < m" by simp
    from A [OF this] assms(3) False c show ?thesis by simp
  qed
qed

lemma sliding_windows_5000:
  assumes "length toks = 5000"
  shows "sliding_windows toks 2000 1800 =
     [py_slice toks 0 2000, py_slice toks 1800 3800, py_slice toks 3600 5000]"
proof -
  have c: "window_count 5000 2000 1800 = 3"
    by (simp add: window_count_def)
  have u: "[0 ..< 3] = [0, 1, Suc 1]"
    by (simp add: upt_rec)
  from assms have a: "py_slice toks 0 2000 = take 2000 (drop (0 * 1800) toks)"
    by (simp add: py_slice_def slice_bound_def)
  from assms have b: "py_slice toks 1800 3800 = take 2000 (drop (1 * 1800) toks)"
    by (simp add: py_slice_def slice_bound_def)
  from assms have "py_slice toks 3600 5000 = take 1400 (drop 3600 toks)"
    by (simp add: py_slice_def slice_bound_def)
  also from assms have "\<dots> = take 2000 (drop 3600 toks)" by simp
  finally have d: "py_slice toks 3600 5000 = take 2000 (drop (Suc 1 * 1800) toks)" by simp
  show ?thesis
    by (simp only: sliding_windows_def assms c u list.map a b d)
qed

text \<open>
  C5, as amended: for \<open>T > 0\<close>, \<open>O \<ge> 0\<close> and a text of more than \<open>T\<close> tokens, the
  splitter returns the trimmed decodings, where not empty, of the windows of width \<open>T\<close>
  at starts advancing by \<open>T - O\<close> when that is positive and by \<open>T\<close> otherwise; every
  window has at most \<open>T\<close> tokens; the last window, and no window before it, reaches the
  end of the tokens; and for 5000 tokens, \<open>T = 2000\<close>, \<open>O = 200\<close> the windows are
  \<open>[0:2000)\<close>, \<open>[1800:3800)\<close>, \<open>[3600:5000)\<close>.
\<close>

theorem token_windows:
  assumes "0 < T" "0 \<le> ov" "T < int (length (encode ENC text0))"
  shows "split_text_by_tokens ENC text0 T ov =
       Some (filter (\<lambda>p. p \<noteq> []) (map (\<lambda>w. strip (decode ENC w))
         (sliding_windows (encode ENC text0) (nat T) (nat (if 0 < T - ov then T - ov else T)))))
    \<and> (\<forall>w \<in> set (sliding_windows (encode ENC text0) (nat T)
            (nat (if 0 < T - ov then T - ov else T))). length w \<le> nat T)
    \<and> (\<forall>k < window_count (length (encode ENC text0)) (nat T)
            (nat (if 0 < T - ov then T - ov else T)).
          (length (encode ENC text0) \<le> k * nat (if 0 < T - ov then T - ov else T) + nat T
            \<longleftrightarrow> Suc k = window_count (length (encode ENC text0)) (nat T)
                  (nat (if 0 < T - ov then T - ov else T))))
    \<and> (length (encode ENC text0) = 5000 \<and> T = 2000 \<and> ov = 200 \<longrightarrow>
         split_text_by_tokens ENC text0 T ov =
           Some (filter (\<lambda>p. p \<noteq> []) (map (\<lambda>w. strip (decode ENC w))
             [py_slice (encode ENC text0) 0 2000, py_slice (encode ENC text0) 1800 3800,
              py_slice (encode ENC text0) 3600 5000])))"
proof -
  let ?toks = "encode ENC text0"
  let ?s = "nat (if 0 < T - ov then T - ov else T)"
  note main = split_text_windows [OF assms]
  from assms(1,3) have n: "nat T < length ?toks" by simp
  have len: "\<forall>w \<in> set (sliding_windows ?toks (nat T) ?s). length w \<le> nat T"
    using sliding_windows_length by blast
  have reach: "\<forall>k < window_count (length ?toks) (nat T) ?s.
      (length ?toks \<le> k * ?s + nat T \<longleftrightarrow> Suc k = window_count (length ?toks) (nat T) ?s)"
    using sliding_windows_reach_end [OF window_step_nat(1,2) [OF assms(1,2)] n] by blast
  have conc: "length ?toks = 5000 \<and> T = 2000 \<and> ov = 200 \<longrightarrow>
         split_text_by_tokens ENC text0 T ov =
           Some (filter (\<lambda>p. p \<noteq> []) (map (\<lambda>w. strip (decode ENC w))
             [py_slice ?toks 0 2000, py_slice ?toks 1800 3800, py_slice ?toks 3600 5000]))"
  proof (intro impI, elim conjE)
    assume h: "length ?toks = 5000" "T = 2000" "ov = 200"
    from h(2,3) have "?s = 1800" "nat T = 2000" by simp_all
    with main sliding_windows_5000 [OF h(1)] show "split_text_by_tokens ENC text0 T ov =
           Some (filter (\<lambda>p. p \<noteq> []) (map (\<lambda>w. strip (decode ENC w))
             [py_slice ?toks 0 2000, py_slice ?toks 1800 3800, py_slice ?toks 3600 5000]))"
      by (simp only:)
  qed
  from main len reach conc show ?thesis by blast
qed

lemma strip_replicate:
  assumes "\<not> is_space c"
  shows "strip (replicate n c) = replicate n c"
proof -
  have d: "dropWhile is_space (replicate k c) = replicate k c" for k
    using assms by (cases k) simp_all
  from assms show ?thesis by (simp add: strip_def d)
qed

theorem token_windows_witness:
  "split_text_by_tokens char_tokenizer (replicate 5000 CHR ''a'') 2000 200 =
     Some [replicate 2000 CHR ''a'', replicate 2000 CHR ''a'', replicate 1400 CHR ''a'']"
proof -
  let ?txt = "replicate 5000 CHR ''a''"
  have enc: "encode char_tokenizer ?txt = replicate 5000 (of_char CHR ''a'')"
    by (simp add: char_tokenizer_def)
  have a: "char_of (97 :: nat) = CHR ''a''" by code_simp
  have h1: "(0 :: int) < 2000" and h2: "(0 :: int) \<le> 200" by simp_all
  have h3: "2000 < int (length (encode char_tokenizer ?txt))"
    by (simp add: enc)
  have h4: "length (encode char_tokenizer ?txt) = 5000 \<and> (2000 :: int) = 2000 \<and> (200 :: int) = 200"
    by (simp add: enc)
  from token_windows [OF h1 h2 h3] h4
  have "split_text_by_tokens char_tokenizer ?txt 2000 200 =
      Some (filter (\<lambda>p. p \<noteq> []) (map (\<lambda>w. strip (decode char_tokenizer w))
        [py_slice (encode char_tokenizer ?txt) 0 2000, py_slice (encode char_tokenizer ?txt) 1800 3800,
         py_slice (encode char_tokenizer ?txt) 3600 5000]))"
    by blast
  moreover have "py_slice (encode char_tokenizer ?txt) 0 2000 = replicate 2000 (of_char CHR ''a'')"
    "py_slice (encode char_tokenizer ?txt) 1800 3800 = replicate 2000 (of_char CHR ''a'')"
    "py_slice (encode char_tokenizer ?txt) 3600 5000 = replicate 1400 (of_char CHR ''a'')"
    by (simp_all add: enc py_slice_def slice_bound_def)
  moreover have "strip (decode char_tokenizer (replicate k (of_char CHR ''a''))) = replicate k CHR ''a''" for k
    by (simp add: char_tokenizer_def strip_replicate is_space_def a)
  ultimately show ?thesis by simp
qed

text \<open>
  C5 as stated (every emitted piece has token length at most \<open>T\<close>) fails: the bound is on
  the window, and a trimmed piece encodes anew.  With a lossless tokenizer that holds
  \<open> ab\<close>, space in front, as one token, \<open>x ab\<close> has 2 tokens; for \<open>T = 1\<close> the second
  window is that token, its piece is \<open>ab\<close>, and \<open>ab\<close> has 2 tokens.
\<close>

theorem piece_over_budget:
  "split_text_by_tokens merge_tokenizer ''x ab'' 1 0 = Some [''x'', ''ab'']
   \<and> encode merge_tokenizer ''x ab'' = [120, 256]
   \<and> decode merge_tokenizer [256] = '' ab''
   \<and> tok_len merge_tokenizer ''ab'' = 2
   \<and> \<not> tok_len merge_tokenizer ''ab'' \<le> 1"
  by code_simp

end
